theory Spec2Isabelle
  imports Main
begin

section \<open>JavaScript values and exceptions\<close>

text \<open>
  Values that cross the untyped boundaries of the program (tool-call arguments, handler
  results, form values) are JSON values. Numbers are restricted to integers; an object is
  the list of its own properties in enumeration order. A property that is absent
  (\<open>undefined\<close> in the source) is \<open>None\<close> where the source reads one.
\<close>

datatype json =
    JNull
  | JBool bool
  | JNumber int
  | JString string
  | JArray "json list"
  | JObject "(string \<times> json) list"

text \<open>A thrown JavaScript error; \<open>message\<close> is its \<open>.message\<close>.\<close>

datatype exn = Error string | TypeError string | SyntaxError string

fun message :: "exn \<Rightarrow> string" where
  "message (Error m) = m"
| "message (TypeError m) = m"
| "message (SyntaxError m) = m"

text \<open>
  \<open>v.k\<close>: reading a property of \<open>null\<close> throws a TypeError, reading a property
  of an object looks it up, and the properties read by this program (\<open>text\<close>,
  \<open>parent_id\<close>, \<open>id\<close>, \<open>error\<close>, \<open>message\<close>) are \<open>undefined\<close> on
  every other value.
\<close>

definition cannotRead :: "string \<Rightarrow> string" where
  "cannotRead k = ''Cannot read properties of null (reading '' @ [CHR 39] @ k @ [CHR 39] @ '')''"

fun getProp :: "json \<Rightarrow> string \<Rightarrow> exn + json option" where
  "getProp JNull k = Inl (TypeError (cannotRead k))"
| "getProp (JObject kvs) k = Inr (map_of kvs k)"
| "getProp (JBool b) k = Inr None"
| "getProp (JNumber n) k = Inr None"
| "getProp (JString s) k = Inr None"
| "getProp (JArray xs) k = Inr None"

section \<open>Data model (src/types.ts)\<close>

text \<open>
  Fields that hold readings of the wall clock (\<open>id\<close> and \<open>timestamp\<close> of a
  message, \<open>thinkingDuration\<close>, \<open>createdAt\<close> of a todo) are left out of the records.
  The \<open>text\<close> and \<open>parentId\<close> of a todo are typed \<open>string\<close> in types.ts, but
  \<open>create_todo\<close> stores \<open>call.args.text\<close> and \<open>call.args.parent_id\<close> unchecked,
  so the fields hold whatever the model sent.
\<close>

record Todo =
  todo_id :: string
  todo_text :: "json option"
  todo_completed :: bool
  todo_parentId :: "json option"
  todo_timeSpent :: nat

record FunctionCall =
  fc_name :: string
  fc_args :: json
  fc_id :: "string option"

record FunctionResponse =
  fr_name :: string
  fr_response :: json
  fr_id :: "string option"

datatype MessagePart =
    TextPart string
  | InlineData string string
  | FileData string string
  | FunctionCallPart FunctionCall
  | FunctionResponsePart FunctionResponse

datatype Role = User | Model

record Message =
  msg_role :: Role
  msg_parts :: "MessagePart list"
  msg_model :: "string option"
  msg_groundingUrls :: "string list option"
  msg_formSubmission :: "json option"

text \<open>
  The decoded response of \<open>geminiService.generateChatResponse\<close>. A grounding chunk is
  kept as its \<open>web?.uri\<close>; \<open>functionCalls\<close> is \<open>undefined\<close> (\<open>None\<close>) or a list.
\<close>

record Response =
  resp_text :: string
  resp_groundingChunks :: "string option list"
  resp_audioData :: "string option"
  resp_functionCalls :: "FunctionCall list option"

section \<open>The task store and the state of a turn (src/App.tsx)\<close>

text \<open>
  \<open>./services/db\<close> is not part of the sources: its four operations are parameters, each
  of which may reject with an error.
\<close>

record 'db dbService =
  addTodo :: "Todo \<Rightarrow> 'db \<Rightarrow> exn + 'db"
  updateTodo :: "Todo \<Rightarrow> 'db \<Rightarrow> exn + 'db"
  deleteTodo :: "json option \<Rightarrow> 'db \<Rightarrow> exn + 'db"
  getAllTodos :: "'db \<Rightarrow> exn + Todo list"

text \<open>
  What a running \<open>handleSendMessageInternal\<close> reads but does not change: the task store
  service, the \<open>todos\<close> array its closure captured when the component rendered, the
  source of fresh todo ids (\<open>Date.now()\<close> and \<open>Math.random()\<close> in the source), the model
  behind \<open>generateChatResponse\<close> as a function of the history it is sent, and the model
  name recorded on the messages.
\<close>

record 'db Env =
  dbSvc :: "'db dbService"
  todosSnapshot :: "Todo list"
  newTodoId :: "nat \<Rightarrow> string"
  respond :: "Message list \<Rightarrow> exn + Response"
  messageModel :: string

text \<open>
  What it changes: the React state \<open>todos\<close>, the task store, the messages of the target
  chat in the React state \<open>chats\<close>, the number of todo ids issued, the local
  \<open>currentHistory\<close>, and (for the claims about round-trips) the log of the histories sent
  to the model.
\<close>

record 'db State =
  todos :: "Todo list"
  db :: 'db
  chat :: "Message list"
  issued :: nat
  history :: "Message list"
  requests :: "Message list list"

text \<open>The result of a step that may throw after it has changed the state.\<close>

type_synonym ('a, 'db) eff = "(exn + 'a) \<times> 'db State"

subsection \<open>Todo handlers\<close>

text \<open>\<open>t.id === id\<close> for a string \<open>t.id\<close> and an argument of any type.\<close>

definition idEq :: "string \<Rightarrow> json option \<Rightarrow> bool" where
  "idEq s v = (v = Some (JString s))"

definition handleAddTodo ::
  "'db Env \<Rightarrow> json option \<Rightarrow> json option \<Rightarrow> 'db State \<Rightarrow> (string, 'db) eff" where
  "handleAddTodo env txt parentId st =
     (let newTodo = \<lparr>todo_id = newTodoId env (issued st), todo_text = txt,
                      todo_completed = False, todo_parentId = parentId, todo_timeSpent = 0\<rparr>;
          st1 = st\<lparr>todos := todos st @ [newTodo], issued := issued st + 1\<rparr>
      in case addTodo (dbSvc env) newTodo (db st1) of
           Inl e \<Rightarrow> (Inl e, st1)
         | Inr d \<Rightarrow> (Inr (todo_id newTodo), st1\<lparr>db := d\<rparr>))"

definition handleToggleTodo :: "'db Env \<Rightarrow> json option \<Rightarrow> 'db State \<Rightarrow> (unit, 'db) eff" where
  "handleToggleTodo env i st =
     (case find (\<lambda>t. idEq (todo_id t) i) (todosSnapshot env) of
        None \<Rightarrow> (Inr (), st)
      | Some todo \<Rightarrow>
          (let updatedTodo = todo\<lparr>todo_completed := \<not> todo_completed todo\<rparr>;
               st1 = st\<lparr>todos := map (\<lambda>t. if idEq (todo_id t) i then updatedTodo else t) (todos st)\<rparr>
           in case updateTodo (dbSvc env) updatedTodo (db st1) of
                Inl e \<Rightarrow> (Inl e, st1)
              | Inr d \<Rightarrow> (Inr (), st1\<lparr>db := d\<rparr>)))"

definition handleDeleteTodo :: "'db Env \<Rightarrow> json option \<Rightarrow> 'db State \<Rightarrow> (unit, 'db) eff" where
  "handleDeleteTodo env i st =
     (let st1 = st\<lparr>todos := filter (\<lambda>t. \<not> idEq (todo_id t) i) (todos st)\<rparr>
      in case deleteTodo (dbSvc env) i (db st1) of
           Inl e \<Rightarrow> (Inl e, st1)
         | Inr d \<Rightarrow> (Inr (), st1\<lparr>db := d\<rparr>))"

subsection \<open>Dispatch of one tool call\<close>

text \<open>\<open>{id: t.id, text: t.text, completed: t.completed}\<close>; an undefined text is no property.\<close>

definition todoSummary :: "Todo \<Rightarrow> json" where
  "todoSummary t =
     JObject ([(''id'', JString (todo_id t))]
              @ (case todo_text t of None \<Rightarrow> [] | Some v \<Rightarrow> [(''text'', v)])
              @ [(''completed'', JBool (todo_completed t))])"

definition success :: json where
  "success = JObject [(''status'', JString ''success'')]"

text \<open>
  The body of the \<open>try\<close> block: the chain of comparisons on \<open>call.name\<close>. The result
  starts as \<open>{error: "Unknown function"}\<close> and stays so when no name matches.
\<close>

definition toolBody :: "'db Env \<Rightarrow> FunctionCall \<Rightarrow> 'db State \<Rightarrow> (json, 'db) eff" where
  "toolBody env call st =
     (if fc_name call = ''create_todo'' then
        (case getProp (fc_args call) ''text'' of
           Inl e \<Rightarrow> (Inl e, st)
         | Inr txt \<Rightarrow>
            (case getProp (fc_args call) ''parent_id'' of
               Inl e \<Rightarrow> (Inl e, st)
             | Inr parentId \<Rightarrow>
                (case handleAddTodo env txt parentId st of
                   (Inl e, st') \<Rightarrow> (Inl e, st')
                 | (Inr i, st') \<Rightarrow>
                     (Inr (JObject [(''id'', JString i), (''status'', JString ''success'')]), st'))))
      else if fc_name call = ''update_todo'' then
        (case getProp (fc_args call) ''id'' of
           Inl e \<Rightarrow> (Inl e, st)
         | Inr i \<Rightarrow>
            (case handleToggleTodo env i st of
               (Inl e, st') \<Rightarrow> (Inl e, st')
             | (Inr u, st') \<Rightarrow> (Inr success, st')))
      else if fc_name call = ''delete_todo'' then
        (case getProp (fc_args call) ''id'' of
           Inl e \<Rightarrow> (Inl e, st)
         | Inr i \<Rightarrow>
            (case handleDeleteTodo env i st of
               (Inl e, st') \<Rightarrow> (Inl e, st')
             | (Inr u, st') \<Rightarrow> (Inr success, st')))
      else if fc_name call = ''get_todos'' then
        (case getAllTodos (dbSvc env) (db st) of
           Inl e \<Rightarrow> (Inl e, st)
         | Inr all \<Rightarrow>
            (Inr (JObject [(''count'', JNumber (int (length all))),
                           (''todos'', JArray (map todoSummary all))]), st))
      else (Inr (JObject [(''error'', JString ''Unknown function'')]), st))"

text \<open>The \<open>try\<close>/\<open>catch\<close> around it, and the functionResponse pushed for the call.\<close>

definition dispatchCall ::
  "'db Env \<Rightarrow> FunctionCall \<Rightarrow> 'db State \<Rightarrow> FunctionResponse \<times> 'db State" where
  "dispatchCall env call st =
     (case toolBody env call st of
        (Inl e, st') \<Rightarrow>
          (\<lparr>fr_name = fc_name call, fr_response = JObject [(''error'', JString (message e))],
            fr_id = fc_id call\<rparr>, st')
      | (Inr result, st') \<Rightarrow>
          (\<lparr>fr_name = fc_name call, fr_response = result, fr_id = fc_id call\<rparr>, st'))"

text \<open>\<open>for (const call of response.functionCalls)\<close>: one call after the other.\<close>

fun dispatchAll ::
  "'db Env \<Rightarrow> FunctionCall list \<Rightarrow> 'db State \<Rightarrow> MessagePart list \<times> 'db State" where
  "dispatchAll env [] st = ([], st)"
| "dispatchAll env (call # calls) st =
     (case dispatchCall env call st of
        (r, st') \<Rightarrow>
          (case dispatchAll env calls st' of
             (rs, st'') \<Rightarrow> (FunctionResponsePart r # rs, st'')))"

subsection \<open>The tool loop\<close>

definition MAX_LOOPS :: nat where
  "MAX_LOOPS = 5"

text \<open>\<open>response.functionCalls && response.functionCalls.length > 0\<close>\<close>

definition hasFunctionCalls :: "Response \<Rightarrow> bool" where
  "hasFunctionCalls response =
     (case resp_functionCalls response of None \<Rightarrow> False | Some calls \<Rightarrow> 0 < length calls)"

definition appendMessage :: "Message \<Rightarrow> 'db State \<Rightarrow> 'db State" where
  "appendMessage m st = st\<lparr>chat := chat st @ [m], history := history st @ [m]\<rparr>"

definition aiCallMessage :: "'db Env \<Rightarrow> Response \<Rightarrow> Message" where
  "aiCallMessage env response =
     \<lparr>msg_role = Model,
      msg_parts = (if resp_text response \<noteq> [] then [TextPart (resp_text response)] else [])
                  @ map FunctionCallPart (case resp_functionCalls response of None \<Rightarrow> [] | Some calls \<Rightarrow> calls),
      msg_model = Some (messageModel env), msg_groundingUrls = None, msg_formSubmission = None\<rparr>"

definition toolResponseMessage :: "MessagePart list \<Rightarrow> Message" where
  "toolResponseMessage functionResponses =
     \<lparr>msg_role = User, msg_parts = functionResponses, msg_model = None,
      msg_groundingUrls = None, msg_formSubmission = None\<rparr>"

text \<open>The branch taken when the response carries function calls.\<close>

definition toolStep :: "'db Env \<Rightarrow> Response \<Rightarrow> 'db State \<Rightarrow> 'db State" where
  "toolStep env response st =
     (let st1 = appendMessage (aiCallMessage env response) st
      in case dispatchAll env (case resp_functionCalls response of None \<Rightarrow> [] | Some calls \<Rightarrow> calls) st1 of
           (functionResponses, st2) \<Rightarrow> appendMessage (toolResponseMessage functionResponses) st2)"

text \<open>
  The branch taken otherwise: the final model message. \<open>filter(Boolean)\<close> drops the
  chunks with no uri or an empty one. Playing the audio and the title request that is
  started but not awaited touch neither the messages nor the loop.
\<close>

definition aiMessage :: "'db Env \<Rightarrow> Response \<Rightarrow> Message" where
  "aiMessage env response =
     \<lparr>msg_role = Model, msg_parts = [TextPart (resp_text response)],
      msg_model = Some (messageModel env),
      msg_groundingUrls =
        Some (concat (map (\<lambda>c. case c of None \<Rightarrow> [] | Some u \<Rightarrow> if u = [] then [] else [u])
                          (resp_groundingChunks response))),
      msg_formSubmission = None\<rparr>"

definition finalStep :: "'db Env \<Rightarrow> Response \<Rightarrow> 'db State \<Rightarrow> 'db State" where
  "finalStep env response st = appendMessage (aiMessage env response) st"

text \<open>
  \<open>while (!finished && loopCount < MAX_LOOPS)\<close>. An error thrown by the request leaves
  the loop (\<open>Inl\<close>, with the state reached); otherwise the loop returns the final values
  of \<open>finished\<close> and \<open>loopCount\<close> and the state.
\<close>

function toolLoop ::
  "'db Env \<Rightarrow> bool \<Rightarrow> nat \<Rightarrow> 'db State \<Rightarrow> exn \<times> 'db State + bool \<times> nat \<times> 'db State" where
  "toolLoop env finished loopCount st =
     (if \<not> finished \<and> loopCount < MAX_LOOPS then
        (let st1 = st\<lparr>requests := requests st @ [history st]\<rparr>
         in case respond env (history st) of
              Inl e \<Rightarrow> Inl (e, st1)
            | Inr response \<Rightarrow>
                if hasFunctionCalls response
                then toolLoop env finished (loopCount + 1) (toolStep env response st1)
                else toolLoop env True (loopCount + 1) (finalStep env response st1))
      else Inr (finished, loopCount, st))"
  by pat_completeness auto
termination
  by (relation "measure (\<lambda>(env, finished, loopCount, st). MAX_LOOPS - loopCount)") auto

declare toolLoop.simps [simp del]

text \<open>The last request logged was answered by a response with no function calls.\<close>

definition lastAnswerFinal :: "'db Env \<Rightarrow> 'db State \<Rightarrow> bool" where
  "lastAnswerFinal env st =
     (requests st \<noteq> [] \<and> (\<exists>r. respond env (last (requests st)) = Inr r \<and> \<not> hasFunctionCalls r))"

text \<open>The state in which the loop leaves, whichever way it leaves.\<close>

definition finalState :: "exn \<times> 'db State + bool \<times> nat \<times> 'db State \<Rightarrow> 'db State" where
  "finalState res = (case res of Inl (e, st) \<Rightarrow> st | Inr (finished, loopCount, st) \<Rightarrow> st)"

section \<open>Strings and JSON text\<close>

text \<open>
  A string is a list of 8-bit code units; text with code units above 255 is outside the
  model. The special characters are named by their code.
\<close>

abbreviation dquote :: char where "dquote \<equiv> CHR 0x22"
abbreviation backslash :: char where "backslash \<equiv> CHR 0x5C"
abbreviation backtick :: char where "backtick \<equiv> CHR 0x60"
abbreviation newline :: char where "newline \<equiv> CHR 0x0A"

subsection \<open>String methods\<close>

text \<open>
  The characters \<open>String.prototype.trim\<close> removes, among those of the model: tab, line
  feed, vertical tab, form feed, carriage return, space and the no-break space.
\<close>

definition isWhiteSpace :: "char \<Rightarrow> bool" where
  "isWhiteSpace c = (c = CHR 0x09 \<or> c = CHR 0x0A \<or> c = CHR 0x0B \<or> c = CHR 0x0C \<or> c = CHR 0x0D
                      \<or> c = CHR 0x20 \<or> c = CHR 0xA0)"

definition trim :: "string \<Rightarrow> string" where
  "trim s = rev (dropWhile isWhiteSpace (rev (dropWhile isWhiteSpace s)))"

definition startsWith :: "string \<Rightarrow> string \<Rightarrow> bool" where
  "startsWith s p = (take (length p) s = p)"

definition endsWith :: "string \<Rightarrow> string \<Rightarrow> bool" where
  "endsWith s p = startsWith (rev s) (rev p)"

text \<open>\<open>s.includes(p)\<close> for strings.\<close>

fun includesStr :: "string \<Rightarrow> string \<Rightarrow> bool" where
  "includesStr [] p = (p = [])"
| "includesStr (c # cs) p = (startsWith (c # cs) p \<or> includesStr cs p)"

text \<open>\<open>indexOf\<close> and \<open>lastIndexOf\<close> of a character; \<open>None\<close> is the source's \<open>-1\<close>.\<close>

fun indexOf :: "char \<Rightarrow> string \<Rightarrow> nat option" where
  "indexOf c [] = None"
| "indexOf c (x # xs) = (if x = c then Some 0 else map_option Suc (indexOf c xs))"

definition lastIndexOf :: "char \<Rightarrow> string \<Rightarrow> nat option" where
  "lastIndexOf c s = map_option (\<lambda>j. length s - 1 - j) (indexOf c (rev s))"

text \<open>\<open>s.substring(a, b)\<close> for \<open>a \<le> b\<close>.\<close>

definition substring :: "string \<Rightarrow> nat \<Rightarrow> nat \<Rightarrow> string" where
  "substring s a b = take (b - a) (drop a s)"

subsection \<open>Numbers and strings as text\<close>

definition digitChar :: "nat \<Rightarrow> char" where
  "digitChar d = char_of (of_char CHR ''0'' + d)"

function showNat :: "nat \<Rightarrow> string" where
  "showNat n = (if n < 10 then [digitChar n] else showNat (n div 10) @ [digitChar (n mod 10)])"
  by pat_completeness auto
termination
  by (relation "measure (\<lambda>n. n)") auto

declare showNat.simps [simp del]

text \<open>
  An integer in plain decimal, as JavaScript writes the integers below \<open>10^21\<close> in
  magnitude.
\<close>

definition showInt :: "int \<Rightarrow> string" where
  "showInt i = (if i < 0 then CHR ''-'' # showNat (nat (- i)) else showNat (nat i))"

definition hexDigit :: "nat \<Rightarrow> char" where
  "hexDigit d = (if d < 10 then digitChar d else char_of (of_char CHR ''a'' + (d - 10)))"

text \<open>
  QuoteJSONString: the two-character escapes, \<open>\u00XY\<close> for the other control
  characters, every other character as it is.
\<close>

definition quoteChar :: "char \<Rightarrow> string" where
  "quoteChar c =
     (if c = CHR 0x08 then [backslash, CHR ''b'']
      else if c = CHR 0x09 then [backslash, CHR ''t'']
      else if c = CHR 0x0A then [backslash, CHR ''n'']
      else if c = CHR 0x0C then [backslash, CHR ''f'']
      else if c = CHR 0x0D then [backslash, CHR ''r'']
      else if c = dquote then [backslash, dquote]
      else if c = backslash then [backslash, backslash]
      else if (of_char c :: nat) < 32 then
        [backslash, CHR ''u'', CHR ''0'', CHR ''0'', hexDigit (of_char c div 16), hexDigit (of_char c mod 16)]
      else [c])"

definition quoteJSONString :: "string \<Rightarrow> string" where
  "quoteJSONString s = dquote # concat (map quoteChar s) @ [dquote]"

fun intercalate :: "'a list \<Rightarrow> 'a list list \<Rightarrow> 'a list" where
  "intercalate sep [] = []"
| "intercalate sep [x] = x"
| "intercalate sep (x # y # ys) = x @ sep @ intercalate sep (y # ys)"

text \<open>
  \<open>JSON.stringify(value, null, gap)\<close> on a JSON value: \<open>stringify gap indent value\<close>, where
  \<open>indent\<close> is the current indentation. With an empty \<open>gap\<close> the text has no white space;
  otherwise every element and member is on a line of its own and a space follows the colon.
\<close>

fun stringify :: "string \<Rightarrow> string \<Rightarrow> json \<Rightarrow> string" where
  "stringify gap indent JNull = ''null''"
| "stringify gap indent (JBool b) = (if b then ''true'' else ''false'')"
| "stringify gap indent (JNumber n) = showInt n"
| "stringify gap indent (JString s) = quoteJSONString s"
| "stringify gap indent (JArray xs) =
     (if xs = [] then ''[]''
      else if gap = [] then
        ''['' @ intercalate '','' (map (stringify gap (indent @ gap)) xs) @ '']''
      else
        ''['' @ [newline] @ (indent @ gap)
        @ intercalate ('','' @ [newline] @ (indent @ gap)) (map (stringify gap (indent @ gap)) xs)
        @ [newline] @ indent @ '']'')"
| "stringify gap indent (JObject kvs) =
     (if kvs = [] then ''{}''
      else if gap = [] then
        ''{'' @ intercalate '',''
                  (map (\<lambda>kv. quoteJSONString (fst kv) @ '':'' @ stringify gap (indent @ gap) (snd kv)) kvs)
        @ ''}''
      else
        ''{'' @ [newline] @ (indent @ gap)
        @ intercalate ('','' @ [newline] @ (indent @ gap))
            (map (\<lambda>kv. quoteJSONString (fst kv) @ '': '' @ stringify gap (indent @ gap) (snd kv)) kvs)
        @ [newline] @ indent @ ''}'')"

definition JSON_stringify :: "json \<Rightarrow> string" where
  "JSON_stringify v = stringify [] [] v"


text \<open>Truthiness of a value that may be \<open>undefined\<close>, and \<open>String(v)\<close>.\<close>

fun truthy :: "json option \<Rightarrow> bool" where
  "truthy None = False"
| "truthy (Some JNull) = False"
| "truthy (Some (JBool b)) = b"
| "truthy (Some (JNumber n)) = (n \<noteq> 0)"
| "truthy (Some (JString s)) = (s \<noteq> [])"
| "truthy (Some (JArray xs)) = True"
| "truthy (Some (JObject kvs)) = True"

fun toStringJS :: "json \<Rightarrow> string" where
  "toStringJS JNull = ''null''"
| "toStringJS (JBool b) = (if b then ''true'' else ''false'')"
| "toStringJS (JNumber n) = showInt n"
| "toStringJS (JString s) = s"
| "toStringJS (JArray xs) =
     intercalate '','' (map (\<lambda>x. if x = JNull then [] else toStringJS x) xs)"
| "toStringJS (JObject kvs) = ''[object Object]''"

subsection \<open>A reference \<open>JSON.parse\<close>\<close>

text \<open>
  \<open>JSON.parse\<close> belongs to the host, not to the program: the functions of the program that
  call it take it as the parameter \<open>P\<close>. For concrete runs \<open>JSON_parse\<close> is a recursive-descent
  parser of the JSON grammar over the values of the model: number literals with a fraction
  or an exponent and \<open>\u\<close> escapes above \<open>00ff\<close> are outside it and are rejected. A key
  that occurs twice keeps its first position and its last value. Integers are read
  exactly and the members of an object stay in the order of the text, so the parser agrees
  with the host on integers below \<open>2^53\<close> in magnitude and up to the order in which an
  object enumerates its keys.
\<close>

definition isJsonWs :: "char \<Rightarrow> bool" where
  "isJsonWs c = (c = CHR 0x20 \<or> c = CHR 0x09 \<or> c = CHR 0x0A \<or> c = CHR 0x0D)"

definition skipWs :: "string \<Rightarrow> string" where
  "skipWs s = dropWhile isJsonWs s"

definition isDigit :: "char \<Rightarrow> bool" where
  "isDigit c = (48 \<le> (of_char c :: nat) \<and> (of_char c :: nat) \<le> 57)"

definition digitVal :: "char \<Rightarrow> nat" where
  "digitVal c = of_char c - 48"

definition natOfDigits :: "string \<Rightarrow> nat" where
  "natOfDigits ds = foldl (\<lambda>a c. 10 * a + digitVal c) 0 ds"

definition parseNat :: "string \<Rightarrow> (int \<times> string) option" where
  "parseNat s =
     (let ds = takeWhile isDigit s; r = dropWhile isDigit s
      in if ds = [] then None
         else if 1 < length ds \<and> hd ds = CHR ''0'' then None
         else if r \<noteq> [] \<and> (hd r = CHR ''.'' \<or> hd r = CHR ''e'' \<or> hd r = CHR ''E'') then None
         else Some (int (natOfDigits ds), r))"

definition parseNumber :: "string \<Rightarrow> (int \<times> string) option" where
  "parseNumber s =
     (case s of
        [] \<Rightarrow> None
      | c # cs \<Rightarrow> if c = CHR ''-'' then map_option (\<lambda>(i, r). (- i, r)) (parseNat cs)
                  else parseNat s)"

definition hexVal :: "char \<Rightarrow> nat option" where
  "hexVal c =
     (let n = (of_char c :: nat)
      in if 48 \<le> n \<and> n \<le> 57 then Some (n - 48)
         else if 97 \<le> n \<and> n \<le> 102 then Some (n - 87)
         else if 65 \<le> n \<and> n \<le> 70 then Some (n - 55)
         else None)"

definition unescape :: "char \<Rightarrow> char option" where
  "unescape e =
     (if e = dquote then Some dquote
      else if e = backslash then Some backslash
      else if e = CHR ''/'' then Some CHR ''/''
      else if e = CHR ''b'' then Some (CHR 0x08)
      else if e = CHR ''f'' then Some (CHR 0x0C)
      else if e = CHR ''n'' then Some (CHR 0x0A)
      else if e = CHR ''r'' then Some (CHR 0x0D)
      else if e = CHR ''t'' then Some (CHR 0x09)
      else None)"

text \<open>The characters of a string literal after its opening quote, up to the closing one.\<close>

fun parseChars :: "string \<Rightarrow> (string \<times> string) option" where
  "parseChars [] = None"
| "parseChars [c] = (if c = dquote then Some ([], []) else None)"
| "parseChars (c # e # cs) =
     (if c = dquote then Some ([], e # cs)
      else if c = backslash then
        (if e = CHR ''u'' then
           (case cs of
              h1 # h2 # h3 # h4 # r \<Rightarrow>
                (case (hexVal h1, hexVal h2, hexVal h3, hexVal h4) of
                   (Some a, Some b, Some c', Some d) \<Rightarrow>
                     if a = 0 \<and> b = 0
                     then map_option (\<lambda>(s, r'). (char_of (16 * c' + d) # s, r')) (parseChars r)
                     else None
                 | _ \<Rightarrow> None)
            | _ \<Rightarrow> None)
         else
           (case unescape e of
              None \<Rightarrow> None
            | Some d \<Rightarrow> map_option (\<lambda>(s, r'). (d # s, r')) (parseChars cs)))
      else if (of_char c :: nat) < 32 then None
      else map_option (\<lambda>(s, r'). (c # s, r')) (parseChars (e # cs)))"

text \<open>Defining a property: a key already present keeps its place and takes the new value.\<close>

fun addMember :: "(string \<times> json) list \<Rightarrow> string \<times> json \<Rightarrow> (string \<times> json) list" where
  "addMember [] kv = [kv]"
| "addMember (kv' # kvs) kv = (if fst kv' = fst kv then kv # kvs else kv' # addMember kvs kv)"

text \<open>
  The grammar, with fuel: \<open>parseElements\<close> reads the elements of a non-empty array up to and
  including \<open>]\<close>, \<open>parseMembers\<close> the members of a non-empty object up to and including
  \<open>}\<close>.
\<close>

fun parseValue :: "nat \<Rightarrow> string \<Rightarrow> (json \<times> string) option"
  and parseElements :: "nat \<Rightarrow> string \<Rightarrow> (json list \<times> string) option"
  and parseMembers :: "nat \<Rightarrow> string \<Rightarrow> ((string \<times> json) list \<times> string) option" where
  "parseValue 0 s = None"
| "parseValue (Suc n) s =
     (case skipWs s of
        [] \<Rightarrow> None
      | c # cs \<Rightarrow>
          if c = CHR ''{'' then
            (case skipWs cs of
               [] \<Rightarrow> None
             | d # ds \<Rightarrow>
                 if d = CHR ''}'' then Some (JObject [], ds)
                 else map_option (\<lambda>(kvs, r). (JObject (foldl addMember [] kvs), r)) (parseMembers n cs))
          else if c = CHR ''['' then
            (case skipWs cs of
               [] \<Rightarrow> None
             | d # ds \<Rightarrow>
                 if d = CHR '']'' then Some (JArray [], ds)
                 else map_option (\<lambda>(vs, r). (JArray vs, r)) (parseElements n cs))
          else if c = dquote then map_option (\<lambda>(str, r). (JString str, r)) (parseChars cs)
          else if startsWith (c # cs) ''true'' then Some (JBool True, drop 4 (c # cs))
          else if startsWith (c # cs) ''false'' then Some (JBool False, drop 5 (c # cs))
          else if startsWith (c # cs) ''null'' then Some (JNull, drop 4 (c # cs))
          else map_option (\<lambda>(i, r). (JNumber i, r)) (parseNumber (c # cs)))"
| "parseElements 0 s = None"
| "parseElements (Suc n) s =
     (case parseValue n s of
        None \<Rightarrow> None
      | Some (v, r) \<Rightarrow>
          (case skipWs r of
             [] \<Rightarrow> None
           | c # cs \<Rightarrow>
               if c = CHR '','' then map_option (\<lambda>(vs, r'). (v # vs, r')) (parseElements n cs)
               else if c = CHR '']'' then Some ([v], cs)
               else None))"
| "parseMembers 0 s = None"
| "parseMembers (Suc n) s =
     (case skipWs s of
        [] \<Rightarrow> None
      | c # cs \<Rightarrow>
          if c = dquote then
            (case parseChars cs of
               None \<Rightarrow> None
             | Some (k, r) \<Rightarrow>
                 (case skipWs r of
                    [] \<Rightarrow> None
                  | c2 # r2 \<Rightarrow>
                      if c2 = CHR '':'' then
                        (case parseValue n r2 of
                           None \<Rightarrow> None
                         | Some (v, r3) \<Rightarrow>
                             (case skipWs r3 of
                                [] \<Rightarrow> None
                              | c3 # r4 \<Rightarrow>
                                  if c3 = CHR '','' then
                                    map_option (\<lambda>(kvs, r'). ((k, v) # kvs, r')) (parseMembers n r4)
                                  else if c3 = CHR ''}'' then Some ([(k, v)], r4)
                                  else None))
                      else None))
          else None)"

definition JSON_parse :: "string \<Rightarrow> exn + json" where
  "JSON_parse s =
     (case parseValue (2 * length s + 2) s of
        None \<Rightarrow> Inl (SyntaxError ''Unexpected token'')
      | Some (v, r) \<Rightarrow> if skipWs r = [] then Inr v else Inl (SyntaxError ''Unexpected token''))"

section \<open>The resilient JSON extractor (src/services/gemini.ts)\<close>

definition fence :: string where
  "fence = [backtick, backtick, backtick]"

text \<open>\<open>.replace(/^```(?:json)?/, '')\<close> and \<open>.replace(/```$/, '')\<close>\<close>

definition stripFenceStart :: "string \<Rightarrow> string" where
  "stripFenceStart s =
     (if startsWith s (fence @ ''json'') then drop 7 s
      else if startsWith s fence then drop 3 s
      else s)"

definition stripFenceEnd :: "string \<Rightarrow> string" where
  "stripFenceEnd s = (if endsWith s fence then take (length s - 3) s else s)"

definition cleanup :: "string \<Rightarrow> string" where
  "cleanup str =
     (let cleaned = trim str
      in if startsWith cleaned fence then trim (stripFenceEnd (stripFenceStart cleaned))
         else cleaned)"

text \<open>
  The loop of step 3 from index \<open>i\<close> over the rest of \<open>cleaned\<close>: the index of the closing
  brace at which \<open>balance\<close> returns to zero, where the loop ends whether the candidate
  parses or not; \<open>None\<close> when the loop runs to the end of the string.
\<close>

fun walk :: "string \<Rightarrow> nat \<Rightarrow> int \<Rightarrow> bool \<Rightarrow> bool \<Rightarrow> nat option" where
  "walk [] i balance inString escaped = None"
| "walk (char # rest) i balance inString escaped =
     (if escaped then walk rest (i + 1) balance inString False
      else if char = backslash then walk rest (i + 1) balance inString True
      else if char = dquote then walk rest (i + 1) balance (\<not> inString) False
      else if \<not> inString then
        (if char = CHR ''{'' then walk rest (i + 1) (balance + 1) inString False
         else if char = CHR ''}'' then
           (if balance - 1 = 0 then Some i else walk rest (i + 1) (balance - 1) inString False)
         else walk rest (i + 1) balance inString False)
      else walk rest (i + 1) balance inString False)"

definition balancedCandidate :: "string \<Rightarrow> string option" where
  "balancedCandidate cleaned =
     (case indexOf CHR ''{'' cleaned of
        None \<Rightarrow> None
      | Some firstBrace \<Rightarrow>
          (case walk (drop firstBrace cleaned) firstBrace 0 False False of
             None \<Rightarrow> None
           | Some i \<Rightarrow> Some (substring cleaned firstBrace (i + 1))))"

definition lastDitchCandidate :: "string \<Rightarrow> string option" where
  "lastDitchCandidate cleaned =
     (case indexOf CHR ''{'' cleaned of
        None \<Rightarrow> None
      | Some firstBrace \<Rightarrow>
          (case lastIndexOf CHR ''}'' cleaned of
             None \<Rightarrow> None
           | Some lastBrace \<Rightarrow>
               if firstBrace < lastBrace then Some (substring cleaned firstBrace (lastBrace + 1))
               else None))"

definition parseFailure :: "string \<Rightarrow> json" where
  "parseFailure str = JObject [(''error'', JString ''JSON Parse Error''), (''raw'', JString str)]"

text \<open>
  \<open>safeParseJSON\<close>. Every call of \<open>JSON.parse\<close> stands in a \<open>try\<close> whose \<open>catch\<close> is
  empty, so a failed parse goes on to the next step.
\<close>

definition lastDitch :: "(string \<Rightarrow> exn + json) \<Rightarrow> string \<Rightarrow> string \<Rightarrow> exn + json" where
  "lastDitch P str cleaned =
     (case lastDitchCandidate cleaned of
        None \<Rightarrow> Inr (parseFailure str)
      | Some candidate \<Rightarrow>
          (case P candidate of Inr v \<Rightarrow> Inr v | Inl e \<Rightarrow> Inr (parseFailure str)))"

definition safeParseJSON :: "(string \<Rightarrow> exn + json) \<Rightarrow> string \<Rightarrow> exn + json" where
  "safeParseJSON P str =
     (case P str of
        Inr v \<Rightarrow> Inr v
      | Inl e \<Rightarrow>
          (let cleaned = cleanup str
           in case P cleaned of
                Inr v \<Rightarrow> Inr v
              | Inl e \<Rightarrow>
                  (case balancedCandidate cleaned of
                     None \<Rightarrow> lastDitch P str cleaned
                   | Some candidate \<Rightarrow>
                       (case P candidate of
                          Inr v \<Rightarrow> Inr v
                        | Inl e \<Rightarrow> lastDitch P str cleaned))))"

text \<open>The strings that the four steps hand to \<open>JSON.parse\<close>, in order.\<close>

definition attempts :: "string \<Rightarrow> string list" where
  "attempts str =
     [str, cleanup str]
     @ (case balancedCandidate (cleanup str) of None \<Rightarrow> [] | Some c \<Rightarrow> [c])
     @ (case lastDitchCandidate (cleanup str) of None \<Rightarrow> [] | Some c \<Rightarrow> [c])"

section \<open>The form payload (src/types.ts and the form card)\<close>

text \<open>
  A field of a parsed payload. The type is the wire string the code compares; a key that
  is absent counts as the empty key, both being falsy.
\<close>

record FormField =
  ff_key :: string
  ff_label :: string
  ff_type :: string
  ff_required :: "bool option"
  ff_options :: "json list option"
  ff_min :: "int option"
  ff_max :: "int option"
  ff_defaultValue :: "json option"

record FormPayload =
  fp_title :: string
  fp_description :: "string option"
  fp_fields :: "FormField list"

text \<open>
  The callback of \<open>parsed.fields.map\<close>, from position \<open>index\<close> on, with the keys seen so
  far.
\<close>

fun uniqueKeys :: "FormField list \<Rightarrow> nat \<Rightarrow> string set \<Rightarrow> FormField list" where
  "uniqueKeys [] index seenKeys = []"
| "uniqueKeys (f # fs) index seenKeys =
     (let uniqueKey =
            (if ff_key f = [] \<or> ff_key f \<in> seenKeys
             then (if ff_key f = [] then ''field'' else ff_key f) @ ''_'' @ showNat index
             else ff_key f)
      in f\<lparr>ff_key := uniqueKey\<rparr> # uniqueKeys fs (index + 1) (insert uniqueKey seenKeys))"

definition parseFields :: "FormPayload \<Rightarrow> FormPayload" where
  "parseFields parsed = parsed\<lparr>fp_fields := uniqueKeys (fp_fields parsed) 0 {}\<rparr>"

text \<open>The value a field is seeded with.\<close>

definition defaultValueFor :: "FormField \<Rightarrow> json" where
  "defaultValueFor f =
     (if ff_type f = ''checkboxes'' then
        (if truthy (ff_defaultValue f) then the (ff_defaultValue f) else JArray [])
      else if ff_type f = ''range_slider'' then
        (if truthy (ff_defaultValue f) then the (ff_defaultValue f)
         else if truthy (map_option JNumber (ff_min f)) then JNumber (the (ff_min f))
         else JNumber 0)
      else
        (if truthy (ff_defaultValue f) then the (ff_defaultValue f) else JString []))"

text \<open>The \<open>forEach\<close> over the fields, on the copy \<open>next\<close> of the form state.\<close>

fun seedDefaults :: "FormField list \<Rightarrow> (string \<rightharpoonup> json) \<Rightarrow> (string \<rightharpoonup> json)" where
  "seedDefaults [] next = next"
| "seedDefaults (f # fs) next =
     seedDefaults fs (if next (ff_key f) = None then next(ff_key f \<mapsto> defaultValueFor f) else next)"

text \<open>
  The updater passed to \<open>setFormData\<close>: it returns \<open>prev\<close> itself when nothing was added,
  which is the same state.
\<close>

definition seedFormData :: "FormPayload \<Rightarrow> (string \<rightharpoonup> json) \<Rightarrow> (string \<rightharpoonup> json)" where
  "seedFormData parsed prev = seedDefaults (fp_fields parsed) prev"

section \<open>The provider fallback (src/services/gemini.ts)\<close>

record ChatConfig =
  cfg_useSearch :: "bool option"
  cfg_useMaps :: "bool option"
  cfg_location :: "json option"
  cfg_useThinking :: "bool option"
  cfg_isTTS :: "bool option"
  cfg_tools :: "json list option"

record AttachmentData =
  att_mimeType :: string
  att_data :: "string option"
  att_fileUri :: "string option"

text \<open>The arguments of \<open>generateChatResponse\<close> other than the model name: one logical turn.\<close>

record Turn =
  turn_history :: "Message list"
  turn_userInput :: string
  turn_systemInstruction :: "string option"
  turn_configOptions :: ChatConfig
  turn_attachments :: "AttachmentData list"

datatype Provider = Gemini | OpenAI

text \<open>
  The collaborators: \<open>openaiChat\<close> is the whole branch of the OpenAI-compatible provider,
  \<open>generateContent\<close> is the \<open>try\<close> block of the Gemini branch (the SDK call for the request
  built from the model name and the turn, and the decoding of its response), \<open>jsonParse\<close> is
  \<open>JSON.parse\<close>.
\<close>

record Service =
  provider :: Provider
  openaiChat :: "string \<Rightarrow> Turn \<Rightarrow> exn + Response"
  generateContent :: "string \<Rightarrow> Turn \<Rightarrow> exn + Response"
  jsonParse :: "string \<Rightarrow> exn + json"

definition fallbackModel :: string where
  "fallbackModel = ''gemini-2.5-flash-preview-09-2025''"

definition thoughtSignature :: string where
  "thoughtSignature = ''Function call is missing a thought signature''"

definition dependencyCode :: string where
  "dependencyCode = ''beyond::dependency::3''"

text \<open>
  The normalized error message \<open>parsedMessage\<close>: the message of the error, or, when that
  is the text of a JSON object with a truthy \<open>error\<close> whose \<open>message\<close> is truthy, that
  \<open>message\<close>, which need not be a string. Whatever throws inside the \<open>try\<close> leaves the
  message of the error in place.
\<close>

definition parsedMessageOf :: "(string \<Rightarrow> exn + json) \<Rightarrow> exn \<Rightarrow> json" where
  "parsedMessageOf P error =
     (if startsWith (message error) ''{'' then
        (case P (message error) of
           Inl e \<Rightarrow> JString (message error)
         | Inr jsonError \<Rightarrow>
             (case getProp jsonError ''error'' of
                Inl e \<Rightarrow> JString (message error)
              | Inr err \<Rightarrow>
                  if truthy err then
                    (case getProp (the err) ''message'' of
                       Inl e \<Rightarrow> JString (message error)
                     | Inr m \<Rightarrow> if truthy m then the m else JString (message error))
                  else JString (message error)))
      else JString (message error))"

text \<open>
  \<open>parsedMessage.includes(p)\<close>: the substring test on a string, membership on an array,
  and a TypeError on a value that has no such method.
\<close>

fun includesJS :: "json \<Rightarrow> string \<Rightarrow> exn + bool" where
  "includesJS (JString s) p = Inr (includesStr s p)"
| "includesJS (JArray xs) p = Inr (JString p \<in> set xs)"
| "includesJS JNull p = Inl (TypeError ''parsedMessage.includes is not a function'')"
| "includesJS (JBool b) p = Inl (TypeError ''parsedMessage.includes is not a function'')"
| "includesJS (JNumber n) p = Inl (TypeError ''parsedMessage.includes is not a function'')"
| "includesJS (JObject kvs) p = Inl (TypeError ''parsedMessage.includes is not a function'')"

text \<open>
  \<open>generateChatResponse\<close>, with the log of the requests made to \<open>generateContent\<close>. The
  retry is the source's recursive call on the fallback model.
\<close>

function generateChatResponse ::
  "Service \<Rightarrow> string \<Rightarrow> Turn \<Rightarrow> (exn + Response) \<times> (string \<times> Turn) list" where
  "generateChatResponse svc modelName turn =
     (if provider svc = OpenAI then (openaiChat svc modelName turn, [])
      else
        (case generateContent svc modelName turn of
           Inr response \<Rightarrow> (Inr response, [(modelName, turn)])
         | Inl error \<Rightarrow>
             (let parsedMessage = parsedMessageOf (jsonParse svc) error
              in case includesJS parsedMessage thoughtSignature of
                   Inl e \<Rightarrow> (Inl e, [(modelName, turn)])
                 | Inr a \<Rightarrow>
                     (case includesJS parsedMessage dependencyCode of
                        Inl e \<Rightarrow> (Inl e, [(modelName, turn)])
                      | Inr b \<Rightarrow>
                          if (a \<or> b) \<and> modelName \<noteq> fallbackModel then
                            (case generateChatResponse svc fallbackModel turn of
                               (result, log) \<Rightarrow> (result, (modelName, turn) # log))
                          else
                            (case includesJS parsedMessage ''Region not supported'' of
                               Inl e \<Rightarrow> (Inl e, [(modelName, turn)])
                             | Inr region \<Rightarrow>
                                 if region
                                 then (Inl (Error ''Region not supported. Try VPN.''), [(modelName, turn)])
                                 else (Inl (Error (toStringJS parsedMessage)), [(modelName, turn)]))))))"
  by pat_completeness auto
termination
  by (relation "measure (\<lambda>(svc, modelName, turn). if modelName = fallbackModel then 0 else 1)") auto

declare generateChatResponse.simps [simp del]

section \<open>A turn and the form submission (src/App.tsx)\<close>
















section \<open>Auxiliary predicates\<close>

text \<open>
  A text is inert for the balance walk, at a balance and inside or outside a string
  literal, when the walk passes over it without stopping and leaves it in the state in
  which it entered.
\<close>

definition inert :: "int \<Rightarrow> bool \<Rightarrow> string \<Rightarrow> bool" where
  "inert b q s = (\<forall>i rest. walk (s @ rest) i b q False = walk rest (i + length s) b q False)"

text \<open>A character that the walk does not look at.\<close>

definition plain :: "char \<Rightarrow> bool" where
  "plain c = (c \<noteq> backslash \<and> c \<noteq> dquote \<and> c \<noteq> CHR ''{'' \<and> c \<noteq> CHR ''}'')"








section \<open>Concrete inputs\<close>

definition unitDb :: "unit dbService" where
  "unitDb = \<lparr>addTodo = (\<lambda>t d. Inr d), updateTodo = (\<lambda>t d. Inr d),
             deleteTodo = (\<lambda>i d. Inr d), getAllTodos = (\<lambda>d. Inr [])\<rparr>"

definition getTodosCall :: FunctionCall where
  "getTodosCall = \<lparr>fc_name = ''get_todos'', fc_args = JObject [], fc_id = None\<rparr>"

definition alwaysCalls :: "unit Env" where
  "alwaysCalls =
     \<lparr>dbSvc = unitDb, todosSnapshot = [], newTodoId = (\<lambda>n. ''t''),
      respond = (\<lambda>h. Inr \<lparr>resp_text = [], resp_groundingChunks = [], resp_audioData = None,
                            resp_functionCalls = Some [getTodosCall]\<rparr>),
      messageModel = ''gemini-3-pro-preview''\<rparr>"

definition emptyState :: "unit State" where
  "emptyState = \<lparr>todos = [], db = (), chat = [], issued = 0, history = [], requests = []\<rparr>"

definition call3 :: "string \<Rightarrow> FunctionCall" where
  "call3 nm = \<lparr>fc_name = nm, fc_args = JObject [], fc_id = Some nm\<rparr>"

definition threeCalls :: Response where
  "threeCalls = \<lparr>resp_text = [], resp_groundingChunks = [], resp_audioData = None,
                 resp_functionCalls = Some [call3 ''A'', call3 ''B'', call3 ''C'']\<rparr>"

definition envThree :: "unit Env" where
  "envThree = \<lparr>dbSvc = unitDb, todosSnapshot = [], newTodoId = (\<lambda>n. ''t''),
               respond = (\<lambda>h. Inr threeCalls), messageModel = ''gemini-3-pro-preview''\<rparr>"

definition failingDb :: "unit dbService" where
  "failingDb = \<lparr>addTodo = (\<lambda>t d. Inr d), updateTodo = (\<lambda>t d. Inr d),
                deleteTodo = (\<lambda>i d. Inr d), getAllTodos = (\<lambda>d. Inl (Error ''store unavailable''))\<rparr>"

definition envFailing :: "unit Env" where
  "envFailing = \<lparr>dbSvc = failingDb, todosSnapshot = [], newTodoId = (\<lambda>n. ''t''),
         respond = (\<lambda>h. Inr \<lparr>resp_text = [], resp_groundingChunks = [], resp_audioData = None,
                            resp_functionCalls = Some [getTodosCall]\<rparr>),
         messageModel = ''gemini-3-pro-preview''\<rparr>"

definition milk :: Todo where
  "milk = \<lparr>todo_id = ''1'', todo_text = Some (JString ''buy milk''), todo_completed = False,
            todo_parentId = None, todo_timeSpent = 0\<rparr>"

definition updateCall :: "bool \<Rightarrow> FunctionCall" where
  "updateCall c = \<lparr>fc_name = ''update_todo'',
                    fc_args = JObject [(''id'', JString ''1''), (''completed'', JBool c),
                                       (''text'', JString ''buy bread'')],
                    fc_id = None\<rparr>"

definition envMilk :: "unit Env" where
  "envMilk = \<lparr>dbSvc = unitDb, todosSnapshot = [milk], newTodoId = (\<lambda>n. ''t''),
              respond = (\<lambda>h. Inl (Error ''offline'')), messageModel = ''gemini-3-pro-preview''\<rparr>"

definition stateMilk :: "unit State" where
  "stateMilk = \<lparr>todos = [milk], db = (), chat = [], issued = 0, history = [], requests = []\<rparr>"

definition objA :: json where
  "objA = JObject [(''a'', JNumber 1)]"

definition fieldOf :: "string \<Rightarrow> string \<Rightarrow> json option \<Rightarrow> int option \<Rightarrow> FormField" where
  "fieldOf k t dv mn =
     \<lparr>ff_key = k, ff_label = ''Label'', ff_type = t, ff_required = None, ff_options = None,
      ff_min = mn, ff_max = None, ff_defaultValue = dv\<rparr>"

definition payloadOf :: "FormField list \<Rightarrow> FormPayload" where
  "payloadOf fs = \<lparr>fp_title = ''Form'', fp_description = None, fp_fields = fs\<rparr>"

definition emptyTurn :: Turn where
  "emptyTurn =
     \<lparr>turn_history = [], turn_userInput = ''hello'', turn_systemInstruction = None,
      turn_configOptions = \<lparr>cfg_useSearch = None, cfg_useMaps = None, cfg_location = None,
                               cfg_useThinking = None, cfg_isTTS = None, cfg_tools = None\<rparr>,
      turn_attachments = []\<rparr>"

definition plainAnswer :: Response where
  "plainAnswer = \<lparr>resp_text = ''hi'', resp_groundingChunks = [], resp_audioData = None,
                  resp_functionCalls = None\<rparr>"

definition defectError :: exn where
  "defectError = Error ''Function call is missing a thought signature in functionCall parts''"

text \<open>A service whose first model fails with the known defect and whose fallback answers.\<close>

definition svcRecovers :: Service where
  "svcRecovers =
     \<lparr>provider = Gemini, openaiChat = (\<lambda>m t. Inl (Error ''unused'')),
      generateContent = (\<lambda>m t. if m = fallbackModel then Inr plainAnswer else Inl defectError),
      jsonParse = JSON_parse\<rparr>"

text \<open>A service on which every model fails with the known defect.\<close>

definition svcBroken :: Service where
  "svcBroken =
     \<lparr>provider = Gemini, openaiChat = (\<lambda>m t. Inl (Error ''unused'')),
      generateContent = (\<lambda>m t. Inl defectError), jsonParse = JSON_parse\<rparr>"

definition objBraces :: "(string \<times> json) list" where
  "objBraces = [(''a'', JString ''}{'')]"



text \<open>The OpenAI-compatible provider, failing with the same message.\<close>

definition svcOpenAI :: Service where
  "svcOpenAI =
     \<lparr>provider = OpenAI, openaiChat = (\<lambda>m t. Inl defectError),
      generateContent = (\<lambda>m t. if m = fallbackModel then Inr plainAnswer else Inl defectError),
      jsonParse = JSON_parse\<rparr>"

section \<open>Properties of the tool loop\<close>

lemma toolBody_frame:
  "toolBody env call st = (r, st') \<Longrightarrow>
     history st' = history st \<and> chat st' = chat st \<and> requests st' = requests st"
  by (auto simp: toolBody_def handleAddTodo_def handleToggleTodo_def handleDeleteTodo_def Let_def
           split: if_splits sum.splits option.splits prod.splits)

lemma dispatchCall_frame:
  "dispatchCall env call st = (r, st') \<Longrightarrow>
     history st' = history st \<and> chat st' = chat st \<and> requests st' = requests st"
  by (auto simp: dispatchCall_def split: prod.splits sum.splits dest: toolBody_frame)

lemma dispatchAll_frame:
  "dispatchAll env calls st = (rs, st') \<Longrightarrow>
     history st' = history st \<and> chat st' = chat st \<and> requests st' = requests st"
proof (induction calls arbitrary: st rs st')
  case Nil
  then show ?case by simp
next
  case (Cons call calls)
  obtain r st1 where d: "dispatchCall env call st = (r, st1)" by (cases "dispatchCall env call st")
  obtain rs' st2 where a: "dispatchAll env calls st1 = (rs', st2)" by (cases "dispatchAll env calls st1")
  from Cons.prems d a have "st' = st2" by simp
  with Cons.IH[OF a] dispatchCall_frame[OF d] show ?case by simp
qed

lemma toolStep_requests: "requests (toolStep env response st) = requests st"
  by (auto simp: toolStep_def Let_def appendMessage_def split: prod.splits dest: dispatchAll_frame)

lemma finalStep_requests: "requests (finalStep env response st) = requests st"
  by (simp add: finalStep_def appendMessage_def)

lemma toolStep_last:
  "\<exists>parts. last (history (toolStep env response st)) = toolResponseMessage parts
         \<and> last (chat (toolStep env response st)) = toolResponseMessage parts"
  by (auto simp: toolStep_def Let_def appendMessage_def split: prod.splits)

lemma toolLoop_always_calls:
  assumes calls: "\<forall>h. \<exists>r. respond env h = Inr r \<and> hasFunctionCalls r"
  shows "n \<le> MAX_LOOPS \<Longrightarrow>
         \<exists>st'. toolLoop env False n st = Inr (False, MAX_LOOPS, st')
              \<and> length (requests st') = length (requests st) + (MAX_LOOPS - n)
              \<and> (n < MAX_LOOPS \<longrightarrow>
                    (\<exists>parts. last (history st') = toolResponseMessage parts
                           \<and> last (chat st') = toolResponseMessage parts))"
proof (induction "MAX_LOOPS - n" arbitrary: n st)
  case 0
  then have "n = MAX_LOOPS" by simp
  then show ?case by (subst toolLoop.simps) simp
next
  case (Suc k)
  then have lt: "n < MAX_LOOPS" by simp
  from calls obtain r where r: "respond env (history st) = Inr r" "hasFunctionCalls r" by blast
  let ?st1 = "st\<lparr>requests := requests st @ [history st]\<rparr>"
  let ?st2 = "toolStep env r ?st1"
  have k: "k = MAX_LOOPS - (n + 1)" using Suc.hyps(2) by simp
  have le: "n + 1 \<le> MAX_LOOPS" using lt by simp
  from Suc.hyps(1)[OF k le, of ?st2]
  obtain st' where st': "toolLoop env False (n + 1) ?st2 = Inr (False, MAX_LOOPS, st')"
    "length (requests st') = length (requests ?st2) + (MAX_LOOPS - (n + 1))"
    "n + 1 < MAX_LOOPS \<longrightarrow> (\<exists>parts. last (history st') = toolResponseMessage parts
                           \<and> last (chat st') = toolResponseMessage parts)" by blast
  have unfold: "toolLoop env False n st = toolLoop env False (n + 1) ?st2"
    using lt r by (subst toolLoop.simps) (simp add: Let_def)
  have "\<exists>parts. last (history st') = toolResponseMessage parts \<and> last (chat st') = toolResponseMessage parts"
  proof (cases "n + 1 < MAX_LOOPS")
    case True
    with st'(3) show ?thesis by blast
  next
    case False
    with le have "n + 1 = MAX_LOOPS" by simp
    with st'(1) have "st' = ?st2" by (subst (asm) toolLoop.simps) simp
    then show ?thesis using toolStep_last[of env r ?st1] by simp
  qed
  with st'(1,2) unfold lt show ?case by (simp add: toolStep_requests)
qed

lemma toolLoop_exit:
  "toolLoop env finished n st = Inr (fin', n', st') \<Longrightarrow>
   (finished \<longrightarrow> lastAnswerFinal env st) \<Longrightarrow>
   n \<le> MAX_LOOPS \<Longrightarrow>
   n \<le> n' \<and> n' \<le> MAX_LOOPS \<and> length (requests st') = length (requests st) + (n' - n) \<and>
   (if fin' then lastAnswerFinal env st' else n' = MAX_LOOPS)"
proof (induction env finished n st rule: toolLoop.induct)
  case (1 env finished loopCount st)
  show ?case
  proof (cases "\<not> finished \<and> loopCount < MAX_LOOPS")
    case False
    with "1.prems" show ?thesis by (subst (asm) toolLoop.simps) (auto split: if_splits)
  next
    case True
    let ?st1 = "st\<lparr>requests := requests st @ [history st]\<rparr>"
    from True "1.prems"(1) obtain r where r: "respond env (history st) = Inr r"
      by (subst (asm) toolLoop.simps) (auto simp: Let_def split: sum.splits)
    show ?thesis
    proof (cases "hasFunctionCalls r")
      case hc: True
      have eq: "toolLoop env finished (loopCount + 1) (toolStep env r ?st1) = Inr (fin', n', st')"
        using "1.prems"(1) True r hc by (subst (asm) toolLoop.simps) (simp add: Let_def)
      show ?thesis
        using "1.IH"(1)[OF True refl r hc eq] True by (auto simp: toolStep_requests)
    next
      case hc: False
      have eq: "toolLoop env True (loopCount + 1) (finalStep env r ?st1) = Inr (fin', n', st')"
        using "1.prems"(1) True r hc by (subst (asm) toolLoop.simps) (simp add: Let_def)
      have fin: "lastAnswerFinal env (finalStep env r ?st1)"
        using r hc by (simp add: lastAnswerFinal_def finalStep_requests)
      show ?thesis
        using "1.IH"(2)[OF True refl r hc eq] True fin by (auto simp: finalStep_requests)
    qed
  qed
qed


lemma dispatchAll_parts:
  "dispatchAll env calls st = (parts, st') \<Longrightarrow>
     \<exists>rs. parts = map FunctionResponsePart rs \<and> map fr_name rs = map fc_name calls
         \<and> map fr_id rs = map fc_id calls"
proof (induction calls arbitrary: st parts st')
  case Nil
  then show ?case by simp
next
  case (Cons call calls)
  obtain r st1 where d: "dispatchCall env call st = (r, st1)" by (cases "dispatchCall env call st")
  obtain ps st2 where a: "dispatchAll env calls st1 = (ps, st2)" by (cases "dispatchAll env calls st1")
  from Cons.IH[OF a] obtain rs where rs: "ps = map FunctionResponsePart rs"
    "map fr_name rs = map fc_name calls" "map fr_id rs = map fc_id calls" by blast
  have r: "fr_name r = fc_name call" "fr_id r = fc_id call"
    using d by (auto simp: dispatchCall_def split: prod.splits sum.splits)
  have "parts = map FunctionResponsePart (r # rs)" using Cons.prems d a rs by simp
  with rs r show ?case by (intro exI[of _ "r # rs"]) simp
qed

lemma dispatchAll_Cons_fst:
  "fst (dispatchAll env (call # calls) st) =
     FunctionResponsePart (fst (dispatchCall env call st))
       # fst (dispatchAll env calls (snd (dispatchCall env call st)))"
  by (simp split: prod.splits)

lemma dispatchAll_Cons_snd:
  "snd (dispatchAll env (call # calls) st) =
     snd (dispatchAll env calls (snd (dispatchCall env call st)))"
  by (simp split: prod.splits)

lemma dispatchAll_nth:
  "i < length calls \<Longrightarrow>
     fst (dispatchAll env calls st) ! i =
       FunctionResponsePart (fst (dispatchCall env (calls ! i) (snd (dispatchAll env (take i calls) st))))"
proof (induction calls arbitrary: st i)
  case Nil
  then show ?case by simp
next
  case (Cons call calls)
  show ?case
  proof (cases i)
    case 0
    then show ?thesis by (simp add: dispatchAll_Cons_fst del: dispatchAll.simps(2))
  next
    case (Suc j)
    with Cons.prems have j: "j < length calls" by simp
    from Cons.IH[OF j] Suc show ?thesis
      by (simp add: dispatchAll_Cons_fst dispatchAll_Cons_snd del: dispatchAll.simps(2))
  qed
qed

lemma dispatchAll_length: "length (fst (dispatchAll env calls st)) = length calls"
  by (induction calls arbitrary: st)
     (simp_all add: dispatchAll_Cons_fst del: dispatchAll.simps(2))

lemma toolStep_messages:
  assumes "resp_functionCalls response = Some calls"
  shows "chat (toolStep env response st) =
           chat st @ [aiCallMessage env response,
                      toolResponseMessage (fst (dispatchAll env calls (appendMessage (aiCallMessage env response) st)))]"
    and "history (toolStep env response st) =
           history st @ [aiCallMessage env response,
                      toolResponseMessage (fst (dispatchAll env calls (appendMessage (aiCallMessage env response) st)))]"
  using assms
  by (auto simp: toolStep_def Let_def appendMessage_def split: prod.splits dest: dispatchAll_frame)

lemma toolLoop_step:
  assumes "n < MAX_LOOPS" "respond env (history st) = Inr response" "hasFunctionCalls response"
  shows "toolLoop env False n st =
         toolLoop env False (n + 1) (toolStep env response (st\<lparr>requests := requests st @ [history st]\<rparr>))"
  using assms by (subst toolLoop.simps) (simp add: Let_def)

lemma toolLoop_Inl:
  "toolLoop env finished n st = Inl (e, st') \<Longrightarrow> \<exists>h. respond env h = Inl e"
proof (induction env finished n st rule: toolLoop.induct)
  case (1 env finished loopCount st)
  show ?case
  proof (cases "respond env (history st)")
    case (Inl e')
    with "1.prems" show ?thesis
      by (subst (asm) toolLoop.simps) (auto simp: Let_def split: if_splits)
  next
    case (Inr r)
    with "1.prems" "1.IH" show ?thesis
      by (subst (asm) toolLoop.simps) (auto simp: Let_def split: if_splits)
  qed
qed

lemma toolLoop_requests:
  "\<exists>more. requests (finalState (toolLoop env finished n st)) = requests st @ more"
proof (induction env finished n st rule: toolLoop.induct)
  case (1 env finished loopCount st)
  show ?case
  proof (cases "\<not> finished \<and> loopCount < MAX_LOOPS")
    case False
    then show ?thesis by (subst toolLoop.simps) (auto simp: finalState_def)
  next
    case True
    show ?thesis
    proof (cases "respond env (history st)")
      case (Inl e')
      with True show ?thesis by (subst toolLoop.simps) (auto simp: finalState_def Let_def)
    next
      case (Inr r)
      show ?thesis
      proof (cases "hasFunctionCalls r")
        case hc: True
        from "1.IH"(1)[OF True refl Inr hc] True Inr hc show ?thesis
          by (subst toolLoop.simps) (auto simp: Let_def toolStep_requests)
      next
        case hc: False
        from "1.IH"(2)[OF True refl Inr hc] True Inr hc show ?thesis
          by (subst toolLoop.simps) (auto simp: Let_def finalStep_requests)
      qed
    qed
  qed
qed

lemma toolLoop_first_request:
  assumes "n < MAX_LOOPS"
  shows "\<exists>more. requests (finalState (toolLoop env False n st)) = requests st @ history st # more"
proof (cases "respond env (history st)")
  case (Inl e')
  with assms show ?thesis by (subst toolLoop.simps) (auto simp: finalState_def Let_def)
next
  case (Inr r)
  let ?st1 = "st\<lparr>requests := requests st @ [history st]\<rparr>"
  show ?thesis
  proof (cases "hasFunctionCalls r")
    case True
    from toolLoop_requests[of env False "n + 1" "toolStep env r ?st1"] assms Inr True show ?thesis
      by (subst toolLoop.simps) (auto simp: Let_def toolStep_requests)
  next
    case False
    from toolLoop_requests[of env True "n + 1" "finalStep env r ?st1"] assms Inr False show ?thesis
      by (subst toolLoop.simps) (auto simp: Let_def finalStep_requests)
  qed
qed


text \<open>
  Claim C1. Against a model that answers every request with function calls, the loop
  started by a turn (\<open>finished = false\<close>, \<open>loopCount = 0\<close>) sends exactly five
  requests and then returns normally with \<open>finished\<close> still false; the last message of the
  transcript is the turn of tool responses for the fifth answer, and nothing follows it.
  For any model, a loop that returns normally after \<open>n\<close> requests either has
  \<open>finished\<close> set, which only a response with no function calls does, or has reached
  \<open>n = 5\<close>. (An error thrown by a request leaves the loop through the handler of
  \<open>handleSendMessageInternal\<close>; that is the result \<open>Inl\<close>.)
\<close>

theorem tool_loop_ceiling:
  "((\<forall>h. \<exists>r. respond env h = Inr r \<and> hasFunctionCalls r) \<longrightarrow>
      (\<exists>st'. toolLoop env False 0 st = Inr (False, 5, st')
            \<and> length (requests st') = length (requests st) + 5
            \<and> (\<exists>parts. last (history st') = toolResponseMessage parts
                      \<and> last (chat st') = toolResponseMessage parts)))
   \<and> (\<forall>fin n st'. toolLoop env False 0 st = Inr (fin, n, st') \<longrightarrow>
         length (requests st') = length (requests st) + n
         \<and> (if fin then lastAnswerFinal env st' else n = 5))"
proof (intro conjI impI allI)
  assume a: "\<forall>h. \<exists>r. respond env h = Inr r \<and> hasFunctionCalls r"
  show "\<exists>st'. toolLoop env False 0 st = Inr (False, 5, st')
            \<and> length (requests st') = length (requests st) + 5
            \<and> (\<exists>parts. last (history st') = toolResponseMessage parts
                      \<and> last (chat st') = toolResponseMessage parts)"
    using toolLoop_always_calls[OF a, of 0 st] by (simp add: MAX_LOOPS_def)
next
  fix fin n st'
  assume "toolLoop env False 0 st = Inr (fin, n, st')"
  from toolLoop_exit[OF this] show "length (requests st') = length (requests st) + n"
    and "if fin then lastAnswerFinal env st' else n = 5"
    by (simp_all add: MAX_LOOPS_def)
qed

theorem tool_loop_ceiling_witness:
  "\<exists>st'. toolLoop alwaysCalls False 0 emptyState = Inr (False, 5, st') \<and> length (requests st') = 5"
proof -
  have a: "\<forall>h. \<exists>r. respond alwaysCalls h = Inr r \<and> hasFunctionCalls r"
    by (simp add: alwaysCalls_def hasFunctionCalls_def)
  from tool_loop_ceiling[of alwaysCalls emptyState] a
  show ?thesis by (auto simp: emptyState_def)
qed

text \<open>
  Claim C2. When the response to a request carries the function calls \<open>calls\<close> (a
  non-empty list), the iteration appends to the transcript (the React state and
  \<open>currentHistory\<close> alike) exactly two messages and goes on to the next iteration: one
  model-role message whose parts are the text (only when it is not empty) followed by one
  functionCall part per call in the order of \<open>calls\<close>, then one user-role message
  with one functionResponse part per call, the names and call ids in the order of
  \<open>calls\<close>. The handlers run one after the other, whatever the task store does.
\<close>

theorem calls_and_responses_in_order:
  assumes "n < MAX_LOOPS" and "respond env (history st) = Inr response"
    and "resp_functionCalls response = Some calls" and "calls \<noteq> []"
  shows "\<exists>st2 rs.
           toolLoop env False n st = toolLoop env False (n + 1) st2
         \<and> chat st2 = chat st @ [aiCallMessage env response, toolResponseMessage (map FunctionResponsePart rs)]
         \<and> history st2 = history st @ [aiCallMessage env response, toolResponseMessage (map FunctionResponsePart rs)]
         \<and> msg_role (aiCallMessage env response) = Model
         \<and> msg_parts (aiCallMessage env response) =
              (if resp_text response = [] then [] else [TextPart (resp_text response)])
              @ map FunctionCallPart calls
         \<and> msg_role (toolResponseMessage (map FunctionResponsePart rs)) = User
         \<and> msg_parts (toolResponseMessage (map FunctionResponsePart rs)) = map FunctionResponsePart rs
         \<and> map fr_name rs = map fc_name calls
         \<and> map fr_id rs = map fc_id calls"
proof -
  let ?st1 = "st\<lparr>requests := requests st @ [history st]\<rparr>"
  let ?st2 = "toolStep env response ?st1"
  let ?parts = "fst (dispatchAll env calls (appendMessage (aiCallMessage env response) ?st1))"
  have hc: "hasFunctionCalls response" using assms(3,4) by (simp add: hasFunctionCalls_def)
  obtain rs where rs: "?parts = map FunctionResponsePart rs" "map fr_name rs = map fc_name calls"
    "map fr_id rs = map fc_id calls"
    using dispatchAll_parts[of env calls "appendMessage (aiCallMessage env response) ?st1" ?parts]
    by (metis prod.collapse)
  have "toolLoop env False n st = toolLoop env False (n + 1) ?st2"
    by (rule toolLoop_step[OF assms(1,2) hc])
  moreover have "chat ?st2 = chat st @ [aiCallMessage env response, toolResponseMessage (map FunctionResponsePart rs)]"
    "history ?st2 = history st @ [aiCallMessage env response, toolResponseMessage (map FunctionResponsePart rs)]"
    using toolStep_messages[OF assms(3), of env ?st1] rs(1) by simp_all
  moreover have "msg_parts (aiCallMessage env response) =
              (if resp_text response = [] then [] else [TextPart (resp_text response)])
              @ map FunctionCallPart calls" using assms(3) by (simp add: aiCallMessage_def)
  ultimately show ?thesis using rs(2,3)
    by (intro exI[of _ ?st2] exI[of _ rs]) (simp add: aiCallMessage_def toolResponseMessage_def)
qed

theorem calls_and_responses_in_order_witness:
  "\<exists>st2 rs. toolLoop envThree False 0 emptyState = toolLoop envThree False 1 st2
     \<and> chat st2 = [aiCallMessage envThree threeCalls, toolResponseMessage (map FunctionResponsePart rs)]
     \<and> msg_parts (aiCallMessage envThree threeCalls) = map FunctionCallPart [call3 ''A'', call3 ''B'', call3 ''C'']
     \<and> map fr_name rs = [''A'', ''B'', ''C'']"
proof -
  have 1: "(0::nat) < MAX_LOOPS" by (simp add: MAX_LOOPS_def)
  have 2: "respond envThree (history emptyState) = Inr threeCalls" by (simp add: envThree_def)
  have 3: "resp_functionCalls threeCalls = Some [call3 ''A'', call3 ''B'', call3 ''C'']"
    by (simp add: threeCalls_def)
  have 4: "[call3 ''A'', call3 ''B'', call3 ''C''] \<noteq> []" by simp
  from calls_and_responses_in_order[OF 1 2 3 4]
  obtain st2 rs where h: "toolLoop envThree False 0 emptyState = toolLoop envThree False (0 + 1) st2"
    "chat st2 = chat emptyState @ [aiCallMessage envThree threeCalls, toolResponseMessage (map FunctionResponsePart rs)]"
    "msg_parts (aiCallMessage envThree threeCalls) =
       (if resp_text threeCalls = [] then [] else [TextPart (resp_text threeCalls)])
       @ map FunctionCallPart [call3 ''A'', call3 ''B'', call3 ''C'']"
    "map fr_name rs = map fc_name [call3 ''A'', call3 ''B'', call3 ''C'']"
    by blast
  have t: "resp_text threeCalls = []" by (simp add: threeCalls_def)
  have c: "chat emptyState = []" by (simp add: emptyState_def)
  have nm: "map fc_name [call3 ''A'', call3 ''B'', call3 ''C''] = [''A'', ''B'', ''C'']"
    by (simp add: call3_def)
  from h t c nm show ?thesis
    by (intro exI[of _ st2] exI[of _ rs]) simp
qed

text \<open>
  Claim C7. When the body of the handler of the \<open>i\<close>-th call of a response throws
  \<open>e\<close> (in the state the calls before it left), the error is caught for that call: the
  \<open>i\<close>-th functionResponse part carries \<open>{error: e.message}\<close>, every call still has its
  part, the turn of tool responses is appended to the transcript and the loop goes on with
  the next iteration. When that iteration is within the ceiling its request is sent the
  history that ends with this turn. Only an error of a request makes the loop leave with an
  error.
\<close>

theorem handler_failure_is_fed_back:
  assumes n: "n < MAX_LOOPS" and resp: "respond env (history st) = Inr response"
    and calls: "resp_functionCalls response = Some calls" and i: "i < length calls"
    and thrown: "toolBody env (calls ! i)
                   (snd (dispatchAll env (take i calls)
                          (appendMessage (aiCallMessage env response)
                             (st\<lparr>requests := requests st @ [history st]\<rparr>)))) = (Inl e, st_i)"
  shows "\<exists>st2 parts.
           toolLoop env False n st = toolLoop env False (n + 1) st2
         \<and> history st2 = history st @ [aiCallMessage env response, toolResponseMessage parts]
         \<and> chat st2 = chat st @ [aiCallMessage env response, toolResponseMessage parts]
         \<and> length parts = length calls
         \<and> parts ! i = FunctionResponsePart
                          \<lparr>fr_name = fc_name (calls ! i),
                           fr_response = JObject [(''error'', JString (message e))],
                           fr_id = fc_id (calls ! i)\<rparr>
         \<and> (n + 1 < MAX_LOOPS \<longrightarrow>
               (\<exists>more. requests (finalState (toolLoop env False n st)) =
                         requests st @ history st # history st2 # more))
         \<and> (\<forall>e' st'. toolLoop env False n st = Inl (e', st') \<longrightarrow> (\<exists>h. respond env h = Inl e'))"
proof -
  let ?st1 = "st\<lparr>requests := requests st @ [history st]\<rparr>"
  let ?st2 = "toolStep env response ?st1"
  let ?parts = "fst (dispatchAll env calls (appendMessage (aiCallMessage env response) ?st1))"
  have hc: "hasFunctionCalls response" using calls i by (auto simp: hasFunctionCalls_def)
  have step: "toolLoop env False n st = toolLoop env False (n + 1) ?st2"
    by (rule toolLoop_step[OF n resp hc])
  have msgs: "history ?st2 = history st @ [aiCallMessage env response, toolResponseMessage ?parts]"
    "chat ?st2 = chat st @ [aiCallMessage env response, toolResponseMessage ?parts]"
    using toolStep_messages[OF calls, of env ?st1] by simp_all
  have len: "length ?parts = length calls" by (rule dispatchAll_length)
  have nth: "?parts ! i = FunctionResponsePart
                          \<lparr>fr_name = fc_name (calls ! i),
                           fr_response = JObject [(''error'', JString (message e))],
                           fr_id = fc_id (calls ! i)\<rparr>"
    using dispatchAll_nth[OF i, of env "appendMessage (aiCallMessage env response) ?st1"] thrown
    by (simp add: dispatchCall_def)
  have nxt: "n + 1 < MAX_LOOPS \<longrightarrow>
               (\<exists>more. requests (finalState (toolLoop env False n st)) =
                         requests st @ history st # history ?st2 # more)"
  proof
    assume "n + 1 < MAX_LOOPS"
    from toolLoop_first_request[OF this, of env ?st2] step
    show "\<exists>more. requests (finalState (toolLoop env False n st)) =
                         requests st @ history st # history ?st2 # more"
      by (simp add: toolStep_requests)
  qed
  have err: "\<forall>e' st'. toolLoop env False n st = Inl (e', st') \<longrightarrow> (\<exists>h. respond env h = Inl e')"
    using toolLoop_Inl by blast
  from step msgs len nth nxt err show ?thesis by blast
qed

theorem handler_failure_is_fed_back_witness:
  "\<exists>st2 parts. toolLoop envFailing False 0 emptyState = toolLoop envFailing False 1 st2
      \<and> length parts = 1
      \<and> parts ! 0 = FunctionResponsePart
                          \<lparr>fr_name = ''get_todos'',
                           fr_response = JObject [(''error'', JString ''store unavailable'')],
                           fr_id = None\<rparr>
      \<and> (\<exists>more. requests (finalState (toolLoop envFailing False 0 emptyState)) =
                    [] # history st2 # more)
      \<and> last (history st2) = toolResponseMessage parts"
proof -
  let ?r = "\<lparr>resp_text = [], resp_groundingChunks = [], resp_audioData = None,
                            resp_functionCalls = Some [getTodosCall]\<rparr>"
  have 1: "(0::nat) < MAX_LOOPS" by (simp add: MAX_LOOPS_def)
  have 2: "respond envFailing (history emptyState) = Inr ?r" by (simp add: envFailing_def)
  have 3: "resp_functionCalls ?r = Some [getTodosCall]" by simp
  have 4: "(0::nat) < length [getTodosCall]" by simp
  have 5: "toolBody envFailing ([getTodosCall] ! 0)
                   (snd (dispatchAll envFailing (take 0 [getTodosCall])
                          (appendMessage (aiCallMessage envFailing ?r)
                             (emptyState\<lparr>requests := requests emptyState @ [history emptyState]\<rparr>))))
            = (Inl (Error ''store unavailable''),
               appendMessage (aiCallMessage envFailing ?r)
                             (emptyState\<lparr>requests := requests emptyState @ [history emptyState]\<rparr>))"
    by (simp add: toolBody_def getTodosCall_def envFailing_def failingDb_def)
  from handler_failure_is_fed_back[OF 1 2 3 4 5]
  obtain st2 parts where h: "toolLoop envFailing False 0 emptyState = toolLoop envFailing False (0 + 1) st2"
    "history st2 = history emptyState @ [aiCallMessage envFailing ?r, toolResponseMessage parts]"
    "length parts = length [getTodosCall]"
    "parts ! 0 = FunctionResponsePart
                          \<lparr>fr_name = fc_name ([getTodosCall] ! 0),
                           fr_response = JObject [(''error'', JString (message (Error ''store unavailable'')))],
                           fr_id = fc_id ([getTodosCall] ! 0)\<rparr>"
    "0 + 1 < MAX_LOOPS \<longrightarrow>
               (\<exists>more. requests (finalState (toolLoop envFailing False 0 emptyState)) =
                         requests emptyState @ history emptyState # history st2 # more)"
    by blast
  have "(0::nat) + 1 < MAX_LOOPS" by (simp add: MAX_LOOPS_def)
  with h(5) have "\<exists>more. requests (finalState (toolLoop envFailing False 0 emptyState)) =
                         [] # history st2 # more" by (simp add: emptyState_def)
  with h(1-4) show ?thesis
    by (intro exI[of _ st2] exI[of _ parts]) (simp add: getTodosCall_def)
qed

section \<open>The update_todo handler\<close>

text \<open>
  The handler reads \<open>call.args.id\<close> and nothing else of the arguments, and it flips the
  flag of a todo that is in the store as the closure captured it.
\<close>

lemma update_todo_reads_only_id:
  assumes "fc_name call = ''update_todo''" "fc_name call' = ''update_todo''"
    and "getProp (fc_args call) ''id'' = getProp (fc_args call') ''id''"
  shows "toolBody env call st = toolBody env call' st"
  using assms by (simp add: toolBody_def)

lemma update_todo_toggles_unchanged_todo:
  assumes "fc_name call = ''update_todo''" and "getProp (fc_args call) ''id'' = Inr (Some (JString i))"
    and "todosSnapshot env = todos st" and "distinct (map todo_id (todos st))"
  shows "todos (snd (toolBody env call st)) =
           map (\<lambda>t. if todo_id t = i then t\<lparr>todo_completed := \<not> todo_completed t\<rparr> else t) (todos st)"
proof (cases "find (\<lambda>t. idEq (todo_id t) (Some (JString i))) (todos st)")
  case None
  then have "\<forall>t\<in>set (todos st). todo_id t \<noteq> i" by (auto simp: find_None_iff idEq_def)
  then have "map (\<lambda>t. if todo_id t = i then t\<lparr>todo_completed := \<not> todo_completed t\<rparr> else t) (todos st) = todos st"
    by (simp add: map_idI)
  with None assms show ?thesis by (simp add: toolBody_def handleToggleTodo_def)
next
  case (Some todo)
  then have t: "todo \<in> set (todos st)" "todo_id todo = i"
    by (auto simp: find_Some_iff idEq_def)
  have uniq: "\<forall>u\<in>set (todos st). todo_id u = i \<longrightarrow> u = todo"
    using t assms(4) by (metis distinct_map inj_onD)
  have "map (\<lambda>u. if idEq (todo_id u) (Some (JString i)) then todo\<lparr>todo_completed := \<not> todo_completed todo\<rparr> else u) (todos st)
      = map (\<lambda>t. if todo_id t = i then t\<lparr>todo_completed := \<not> todo_completed t\<rparr> else t) (todos st)"
    using uniq by (auto simp: idEq_def)
  with Some assms show ?thesis
    by (simp add: toolBody_def handleToggleTodo_def Let_def split: sum.splits)
qed

text \<open>
  Claim C10. The arguments \<open>completed\<close> and \<open>text\<close> are ignored, but not every
  dispatched call toggles: \<open>handleToggleTodo\<close> negates the flag of the todo found in the
  \<open>todos\<close> array that its closure captured, not of the todo in the current state. Here one
  response carries two \<open>update_todo\<close> calls for the same open task: the first sets the flag,
  the second (with \<open>completed\<close> equal to the current state) leaves it set, and both
  report success.
\<close>

theorem update_todo_repeated_call_does_not_toggle:
  "map todo_completed (todos stateMilk) = [False]
   \<and> map todo_completed (todos (snd (dispatchAll envMilk [updateCall False] stateMilk))) = [True]
   \<and> map todo_completed (todos (snd (dispatchAll envMilk [updateCall False, updateCall True] stateMilk))) = [True]
   \<and> fst (dispatchAll envMilk [updateCall False, updateCall True] stateMilk) =
       [FunctionResponsePart \<lparr>fr_name = ''update_todo'', fr_response = success, fr_id = None\<rparr>,
        FunctionResponsePart \<lparr>fr_name = ''update_todo'', fr_response = success, fr_id = None\<rparr>]"
  by (simp add: stateMilk_def envMilk_def milk_def updateCall_def dispatchCall_def toolBody_def
        handleToggleTodo_def idEq_def unitDb_def Let_def)

section \<open>Properties of the resilient JSON extractor\<close>

lemma lastDitch_total: "\<exists>v. lastDitch P str cleaned = Inr v"
  by (auto simp: lastDitch_def split: option.splits sum.splits)

lemma safeParseJSON_total: "\<exists>v. safeParseJSON P str = Inr v"
  using lastDitch_total[of P str "cleanup str"]
  by (auto simp: safeParseJSON_def Let_def split: option.splits sum.splits)

lemma safeParseJSON_all_fail:
  assumes "\<forall>c\<in>set (attempts str). \<exists>e. P c = Inl e"
  shows "safeParseJSON P str = Inr (parseFailure str)"
proof -
  have 1: "\<exists>e. P str = Inl e" and 2: "\<exists>e. P (cleanup str) = Inl e"
    using assms by (simp_all add: attempts_def)
  have 3: "balancedCandidate (cleanup str) = Some c \<Longrightarrow> \<exists>e. P c = Inl e" for c
    using assms by (simp add: attempts_def)
  have 4: "lastDitchCandidate (cleanup str) = Some c \<Longrightarrow> \<exists>e. P c = Inl e" for c
    using assms by (simp add: attempts_def)
  have ld: "lastDitch P str (cleanup str) = Inr (parseFailure str)"
    using 4 by (auto simp: lastDitch_def split: option.splits sum.splits)
  show ?thesis
    using 1 2 3 ld by (auto simp: safeParseJSON_def Let_def split: option.splits sum.splits)
qed

text \<open>
  Claim C3. \<open>safeParseJSON\<close> returns a value for every input string, whatever
  \<open>JSON.parse\<close> does; when \<open>JSON.parse\<close> throws on every string that the four steps
  hand to it, the value is the object with the tag \<open>error: "JSON Parse Error"\<close> and the
  input itself, unchanged, under \<open>raw\<close>. The witness is the input \<open>not json at all\<close>.
\<close>

theorem safeParseJSON_never_throws:
  "(\<exists>v. safeParseJSON P raw = Inr v)
   \<and> ((\<forall>c\<in>set (attempts raw). \<exists>e. P c = Inl e) \<longrightarrow>
        safeParseJSON P raw = Inr (JObject [(''error'', JString ''JSON Parse Error''), (''raw'', JString raw)]))"
  using safeParseJSON_total[of P raw] safeParseJSON_all_fail[of raw P]
  by (simp add: parseFailure_def)

theorem safeParseJSON_never_throws_witness:
  "safeParseJSON JSON_parse ''not json at all'' =
     Inr (JObject [(''error'', JString ''JSON Parse Error''), (''raw'', JString ''not json at all'')])"
proof -
  have a: "attempts ''not json at all'' = [''not json at all'', ''not json at all'']"
    by code_simp
  have p: "JSON_parse ''not json at all'' = Inl (SyntaxError ''Unexpected token'')"
    by code_simp
  have "\<forall>c\<in>set (attempts ''not json at all''). \<exists>e. JSON_parse c = Inl e"
    unfolding a using p by simp
  with safeParseJSON_never_throws[of JSON_parse "''not json at all''"] show ?thesis by blast
qed

subsection \<open>The balance walk over the text of a value\<close>

lemma inert_Nil: "inert b q []"
  by (simp add: inert_def)

lemma inert_append: "inert b q s \<Longrightarrow> inert b q t \<Longrightarrow> inert b q (s @ t)"
  by (simp add: inert_def add.assoc)

lemma inert_plain: "\<forall>c\<in>set s. plain c \<Longrightarrow> inert b q s"
proof (induction s)
  case Nil
  show ?case by (rule inert_Nil)
next
  case (Cons c s)
  then have "inert b q s" by simp
  moreover have "inert b q [c]" using Cons.prems by (simp add: inert_def plain_def)
  ultimately show ?case using inert_append[of b q "[c]" s] by simp
qed

lemma inert_escape: "inert b q [backslash, c]"
  by (simp add: inert_def)

lemma of_char_digitChar: "d < 10 \<Longrightarrow> (of_char (digitChar d) :: nat) = 48 + d"
  by (simp add: digitChar_def)

lemma of_char_hexDigit:
  "d < 16 \<Longrightarrow> (of_char (hexDigit d) :: nat) = (if d < 10 then 48 + d else 87 + d)"
  by (simp add: hexDigit_def digitChar_def)

lemma plain_hexDigit: "d < 16 \<Longrightarrow> plain (hexDigit d)"
proof -
  assume d: "d < 16"
  have "(of_char (hexDigit d) :: nat) \<noteq> 92" "(of_char (hexDigit d) :: nat) \<noteq> 34"
    "(of_char (hexDigit d) :: nat) \<noteq> 123" "(of_char (hexDigit d) :: nat) \<noteq> 125"
    using d by (simp_all add: of_char_hexDigit)
  then show ?thesis by (auto simp: plain_def)
qed

lemma inert_quoteChar: "inert b True (quoteChar c)"
proof -
  have u: "inert b True [backslash, CHR ''u'', CHR ''0'', CHR ''0'', hexDigit (of_char c div 16), hexDigit (of_char c mod 16)]"
    if "(of_char c :: nat) < 32"
  proof -
    have "of_char c div 16 < (16::nat)" using that by simp
    then have "\<forall>x\<in>set [CHR ''0'', CHR ''0'', hexDigit (of_char c div 16), hexDigit (of_char c mod 16)]. plain x"
      by (simp add: plain_hexDigit) (simp add: plain_def)
    from inert_append[OF inert_escape[of b True "CHR ''u''"] inert_plain[OF this]]
    show ?thesis by simp
  qed
  have p: "inert b True [c]" if "c \<noteq> backslash" "c \<noteq> dquote"
    using that by (simp add: inert_def)
  show ?thesis
    using u p inert_escape[of b True] by (auto simp: quoteChar_def)
qed

lemma inert_quoted_body: "inert b True (concat (map quoteChar s))"
  by (induction s) (simp_all add: inert_Nil inert_append inert_quoteChar)

lemma inert_quoteJSONString: "inert b False (quoteJSONString s)"
proof -
  have "walk (quoteJSONString s @ rest) i b False False
        = walk rest (i + length (quoteJSONString s)) b False False" for i rest
  proof -
    have "walk (quoteJSONString s @ rest) i b False False
          = walk (concat (map quoteChar s) @ dquote # rest) (i + 1) b True False"
      by (simp add: quoteJSONString_def)
    also have "\<dots> = walk (dquote # rest) (i + 1 + length (concat (map quoteChar s))) b True False"
      using inert_quoted_body[of b s] by (simp add: inert_def)
    also have "\<dots> = walk rest (i + length (quoteJSONString s)) b False False"
      by (simp add: quoteJSONString_def add.assoc)
    finally show ?thesis .
  qed
  then show ?thesis by (simp add: inert_def)
qed

lemma inert_intercalate:
  "inert b q sep \<Longrightarrow> \<forall>x\<in>set xs. inert b q x \<Longrightarrow> inert b q (intercalate sep xs)"
proof (induction sep xs rule: intercalate.induct)
  case (1 sep)
  then show ?case by (simp add: inert_Nil)
next
  case (2 sep x)
  then show ?case by simp
next
  case (3 sep x y ys)
  then show ?case by (simp add: inert_append)
qed



lemma showNat_digits: "\<forall>c\<in>set (showNat n). \<exists>d<10. c = digitChar d"
proof (induction n rule: showNat.induct)
  case (1 n)
  show ?case
  proof (cases "n < 10")
    case True
    then show ?thesis by (subst showNat.simps) auto
  next
    case False
    have "\<exists>d<10. digitChar (n mod 10) = digitChar d"
      by (intro exI[of _ "n mod 10"]) simp
    with 1 False show ?thesis by (subst showNat.simps) auto
  qed
qed

lemma plain_digitChar: "d < 10 \<Longrightarrow> plain (digitChar d)"
proof -
  assume d: "d < 10"
  have "(of_char (digitChar d) :: nat) \<noteq> 92" "(of_char (digitChar d) :: nat) \<noteq> 34"
    "(of_char (digitChar d) :: nat) \<noteq> 123" "(of_char (digitChar d) :: nat) \<noteq> 125"
    using d by (simp_all add: of_char_digitChar)
  then show ?thesis by (auto simp: plain_def)
qed

lemma plain_showInt: "\<forall>c\<in>set (showInt n). plain c"
proof
  fix c assume c: "c \<in> set (showInt n)"
  have a: "plain x" if "x \<in> set (showNat m)" for x m
  proof -
    from showNat_digits[of m] that obtain d where "d < 10" "x = digitChar d" by auto
    then show ?thesis by (simp add: plain_digitChar)
  qed
  have m: "plain CHR ''-''" by (simp add: plain_def)
  show "plain c"
  proof (cases "n < 0")
    case True
    with c have "c = CHR ''-'' \<or> c \<in> set (showNat (nat (- n)))" by (simp add: showInt_def)
    with a m show ?thesis by blast
  next
    case False
    with c have "c \<in> set (showNat (nat n))" by (simp add: showInt_def)
    with a show ?thesis by blast
  qed
qed

lemma inert_member:
  assumes "inert b False value"
  shows "inert b False (quoteJSONString key @ CHR '':'' # value)"
proof -
  have "inert b False '':''" by (rule inert_plain) (simp add: plain_def)
  from inert_append[OF inert_quoteJSONString inert_append[OF this assms]] show ?thesis by simp
qed

lemma inert_stringify: "0 < b \<Longrightarrow> inert b False (stringify [] [] v)"
proof (induction v arbitrary: b)
  case JNull
  show ?case by (simp add: inert_plain plain_def)
next
  case (JBool x)
  show ?case by (simp add: inert_plain plain_def)
next
  case (JNumber x)
  show ?case by (simp add: inert_plain plain_showInt)
next
  case (JString x)
  show ?case by (simp add: inert_quoteJSONString)
next
  case (JArray xs)
  have br: "inert b False ''[''" "inert b False '']''" "inert b False '',''"
    by (simp_all add: inert_plain plain_def)
  have "\<forall>x\<in>set (map (stringify [] []) xs). inert b False x"
    using JArray by simp
  from inert_append[OF br(1) inert_append[OF inert_intercalate[OF br(3) this] br(2)]]
  show ?case by (simp add: inert_plain plain_def)
next
  case (JObject kvs)
  let ?members = "intercalate '',''
        (map (\<lambda>kv. quoteJSONString (fst kv) @ '':'' @ stringify [] [] (snd kv)) kvs)"
  have sep: "inert (b + 1) False '',''" by (simp add: inert_plain plain_def)
  have each: "\<forall>x\<in>set (map (\<lambda>kv. quoteJSONString (fst kv) @ '':'' @ stringify [] [] (snd kv)) kvs).
                inert (b + 1) False x"
  proof -
    have "inert (b + 1) False (stringify [] [] (snd kv))" if "kv \<in> set kvs" for kv
      using JObject.IH[OF that, of "snd kv" "b + 1"] JObject.prems
      by (simp add: snds.intros)
    then show ?thesis by (auto intro: inert_member)
  qed
  have mem: "inert (b + 1) False ?members" by (rule inert_intercalate[OF sep each])
  have "walk ((''{'' @ ?members @ ''}'') @ rest) i b False False
        = walk rest (i + length (''{'' @ ?members @ ''}'')) b False False" for i rest
  proof -
    have "walk ((''{'' @ ?members @ ''}'') @ rest) i b False False
          = walk (?members @ CHR ''}'' # rest) (i + 1) (b + 1) False False" by simp
    also have "\<dots> = walk (CHR ''}'' # rest) (i + 1 + length ?members) (b + 1) False False"
      using mem by (simp add: inert_def)
    also have "\<dots> = walk rest (i + length (''{'' @ ?members @ ''}'')) b False False"
      using JObject.prems by (simp add: add.assoc)
    finally show ?thesis .
  qed
  then have full: "inert b False (''{'' @ ?members @ ''}'')" unfolding inert_def by blast
  show ?case
  proof (cases "kvs = []")
    case True
    then show ?thesis using JObject.prems by (simp add: inert_def)
  next
    case False
    then have "stringify [] [] (JObject kvs) = ''{'' @ ?members @ ''}''" by simp
    with full show ?thesis by (simp only:)
  qed
qed

lemma walk_object:
  "walk (stringify [] [] (JObject kvs) @ rest) i 0 False False
     = Some (i + length (stringify [] [] (JObject kvs)) - 1)"
proof (cases "kvs = []")
  case True
  then show ?thesis by simp
next
  case False
  let ?members = "intercalate '',''
        (map (\<lambda>kv. quoteJSONString (fst kv) @ '':'' @ stringify [] [] (snd kv)) kvs)"
  have sep: "inert 1 False '',''" by (simp add: inert_plain plain_def)
  have each: "\<forall>x\<in>set (map (\<lambda>kv. quoteJSONString (fst kv) @ '':'' @ stringify [] [] (snd kv)) kvs).
                inert 1 False x"
    using inert_stringify[of 1] by (auto intro: inert_member)
  have mem: "inert 1 False ?members" by (rule inert_intercalate[OF sep each])
  have "walk ((''{'' @ ?members @ ''}'') @ rest) i 0 False False
          = walk (?members @ CHR ''}'' # rest) (i + 1) 1 False False" by simp
  also have "\<dots> = walk (CHR ''}'' # rest) (i + 1 + length ?members) 1 False False"
    using mem by (simp add: inert_def)
  also have "\<dots> = Some (i + 1 + length ?members)" by simp
  finally show ?thesis using False by simp
qed


lemma dropWhile_keep: "s \<noteq> [] \<Longrightarrow> \<not> P (hd s) \<Longrightarrow> dropWhile P (a @ s) = dropWhile P a @ s"
  by (induction a) (auto simp: neq_Nil_conv)

lemma trim_keep:
  assumes "s \<noteq> []" "\<not> isWhiteSpace (hd s)" "\<not> isWhiteSpace (last s)"
  shows "trim (a @ s @ b) = dropWhile isWhiteSpace a @ s @ rev (dropWhile isWhiteSpace (rev b))"
proof -
  have 1: "dropWhile isWhiteSpace (a @ s @ b) = dropWhile isWhiteSpace a @ s @ b"
    using dropWhile_keep[of "s @ b" isWhiteSpace a] assms by simp
  have 2: "dropWhile isWhiteSpace (rev b @ rev s @ rev (dropWhile isWhiteSpace a))
           = dropWhile isWhiteSpace (rev b) @ rev s @ rev (dropWhile isWhiteSpace a)"
    using dropWhile_keep[of "rev s @ rev (dropWhile isWhiteSpace a)" isWhiteSpace "rev b"] assms
    by (simp add: hd_rev)
  show ?thesis by (simp add: trim_def 1 2)
qed

lemma take_prefix_before:
  assumes "take n (a @ s @ b) = p" "length p = n" "s \<noteq> []" "hd s \<notin> set p"
  shows "n \<le> length a"
proof (rule ccontr)
  assume "\<not> n \<le> length a"
  then have lt: "length a < n" by simp
  have "length a < length (a @ s @ b)" using assms(3) by (cases s) auto
  then have "take n (a @ s @ b) ! length a = (a @ s @ b) ! length a" using lt by (rule_tac nth_take)
  also have "\<dots> = hd s" using assms(3) by (cases s) (auto simp: nth_append)
  finally have "p ! length a = hd s" using assms(1) by simp
  moreover have "length a < length p" using lt assms(2) by simp
  ultimately have "hd s \<in> set p" by (metis nth_mem)
  with assms(4) show False by simp
qed

lemma stripFenceStart_keep:
  assumes "s \<noteq> []" "hd s = CHR ''{''"
  shows "\<exists>a'. stripFenceStart (a @ s @ b) = a' @ s @ b \<and> set a' \<subseteq> set a"
proof -
  have 7: "drop 7 (a @ s @ b) = drop 7 a @ s @ b" if "startsWith (a @ s @ b) (fence @ ''json'')"
  proof -
    have len: "length (fence @ ''json'') = 7" by (simp add: fence_def)
    have "take 7 (a @ s @ b) = fence @ ''json''" using that unfolding startsWith_def len .
    from take_prefix_before[OF this _ assms(1)] assms(2) have "7 \<le> length a"
      by (simp add: fence_def)
    then show ?thesis by simp
  qed
  have 3: "drop 3 (a @ s @ b) = drop 3 a @ s @ b" if "startsWith (a @ s @ b) fence"
  proof -
    have len: "length fence = 3" by (simp add: fence_def)
    have "take 3 (a @ s @ b) = fence" using that unfolding startsWith_def len .
    from take_prefix_before[OF this _ assms(1)] assms(2) have "3 \<le> length a"
      by (simp add: fence_def)
    then show ?thesis by simp
  qed
  have sub: "set (drop n a) \<subseteq> set a" for n by (rule set_drop_subset)
  show ?thesis
    using 7 3 sub by (auto simp: stripFenceStart_def)
qed

lemma stripFenceEnd_keep:
  assumes "s \<noteq> []" "last s = CHR ''}''"
  shows "\<exists>b'. stripFenceEnd (a @ s @ b) = a @ s @ b'"
proof (cases "endsWith (a @ s @ b) fence")
  case False
  then show ?thesis by (simp add: stripFenceEnd_def)
next
  case True
  have len: "length (rev fence) = 3" by (simp add: fence_def)
  from True have "take 3 (rev (a @ s @ b)) = rev fence"
    unfolding endsWith_def startsWith_def len .
  then have "take 3 (rev b @ rev s @ rev a) = rev fence" by simp
  from take_prefix_before[OF this] assms have "3 \<le> length b"
    by (simp add: fence_def hd_rev)
  then have "take (length (a @ s @ b) - 3) (a @ s @ b) = a @ s @ take (length b - 3) b"
    by simp
  then have "stripFenceEnd (a @ s @ b) = a @ s @ take (length b - 3) b"
    using True by (simp only: stripFenceEnd_def if_True)
  then show ?thesis by blast
qed

lemma cleanup_keep:
  assumes "s \<noteq> []" "hd s = CHR ''{''" "last s = CHR ''}''"
  shows "\<exists>a' b'. cleanup (a @ s @ b) = a' @ s @ b' \<and> set a' \<subseteq> set a"
proof -
  have w: "\<not> isWhiteSpace (hd s)" "\<not> isWhiteSpace (last s)"
    using assms by (simp_all add: isWhiteSpace_def)
  note t = trim_keep[OF assms(1) w]
  let ?a1 = "dropWhile isWhiteSpace a"
  let ?b1 = "rev (dropWhile isWhiteSpace (rev b))"
  have a1: "set ?a1 \<subseteq> set a" by (auto dest: set_dropWhileD)
  obtain a2 where a2: "stripFenceStart (?a1 @ s @ ?b1) = a2 @ s @ ?b1" "set a2 \<subseteq> set ?a1"
    using stripFenceStart_keep[OF assms(1,2)] by blast
  obtain b2 where b2: "stripFenceEnd (a2 @ s @ ?b1) = a2 @ s @ b2"
    using stripFenceEnd_keep[OF assms(1,3)] by blast
  have a3: "set (dropWhile isWhiteSpace a2) \<subseteq> set a" using a2(2) a1 by (auto dest: set_dropWhileD)
  show ?thesis
  proof (cases "startsWith (trim (a @ s @ b)) fence")
    case False
    then have "cleanup (a @ s @ b) = ?a1 @ s @ ?b1" by (simp add: cleanup_def t)
    with a1 show ?thesis by blast
  next
    case True
    then have "cleanup (a @ s @ b) = trim (a2 @ s @ b2)" by (simp add: cleanup_def t a2 b2)
    also have "\<dots> = dropWhile isWhiteSpace a2 @ s @ rev (dropWhile isWhiteSpace (rev b2))" by (rule t)
    finally show ?thesis using a3 by blast
  qed
qed

lemma indexOf_first: "c \<notin> set a \<Longrightarrow> indexOf c (a @ c # r) = Some (length a)"
  by (induction a) auto

lemma stringify_object_shape:
  "stringify [] [] (JObject kvs) \<noteq> [] \<and> hd (stringify [] [] (JObject kvs)) = CHR ''{''
   \<and> last (stringify [] [] (JObject kvs)) = CHR ''}''"
  by simp

lemma balancedCandidate_found:
  assumes "CHR ''{'' \<notin> set a"
  shows "balancedCandidate (a @ stringify [] [] (JObject kvs) @ b) = Some (stringify [] [] (JObject kvs))"
proof -
  let ?s = "stringify [] [] (JObject kvs)"
  obtain r where r: "?s = CHR ''{'' # r" by (cases "kvs = []") auto
  have ix: "indexOf CHR ''{'' (a @ ?s @ b) = Some (length a)"
    using indexOf_first[OF assms, of "r @ b"] r by simp
  have w: "walk (drop (length a) (a @ ?s @ b)) (length a) 0 False False = Some (length a + length ?s - 1)"
    using walk_object[of kvs b "length a"] by simp
  have len: "0 < length ?s" using r by simp
  have "substring (a @ ?s @ b) (length a) (length a + length ?s - 1 + 1) = ?s"
    using len by (simp add: substring_def)
  with ix w show ?thesis by (simp add: balancedCandidate_def del: stringify.simps)
qed

text \<open>
  Claim C4, as stated, fails in two ways. Prose before the object that contains a balanced
  pair of braces is where the balance walk starts, and its first balanced block is
  returned when it parses; and text around the object that makes the whole input valid
  JSON is parsed by the first step as it is.
\<close>

theorem prose_with_braces_counterexample:
  "safeParseJSON JSON_parse (''{} '' @ JSON_stringify objA @ '''') = Inr (JObject [])
   \<and> JObject [] \<noteq> objA
   \<and> safeParseJSON JSON_parse (''['' @ JSON_stringify objA @ '']'') = Inr (JArray [objA])
   \<and> JArray [objA] \<noteq> objA"
  by code_simp


text \<open>
  Claim C4, amended. Let \<open>o\<close> be a JSON object that \<open>JSON.parse\<close> reads back from its
  \<open>JSON.stringify\<close> text, let \<open>pre\<close> contain no opening brace, and let neither the whole
  input nor its trimmed and unfenced form parse as a value other than \<open>o\<close>. Then
  \<open>safeParseJSON (pre + JSON.stringify(o) + post)\<close> returns \<open>o\<close>, whatever \<open>post\<close> is
  and whatever braces, quotes and backslashes the strings of \<open>o\<close> contain.
\<close>

theorem balanced_extraction:
  assumes "CHR ''{'' \<notin> set pre"
    and "P (JSON_stringify (JObject kvs)) = Inr (JObject kvs)"
    and "\<forall>v. P (pre @ JSON_stringify (JObject kvs) @ post) = Inr v \<longrightarrow> v = JObject kvs"
    and "\<forall>v. P (cleanup (pre @ JSON_stringify (JObject kvs) @ post)) = Inr v \<longrightarrow> v = JObject kvs"
  shows "safeParseJSON P (pre @ JSON_stringify (JObject kvs) @ post) = Inr (JObject kvs)"
proof -
  let ?s = "stringify [] [] (JObject kvs)"
  let ?raw = "pre @ ?s @ post"
  from cleanup_keep[of ?s pre post] stringify_object_shape[of kvs]
  obtain a b where c: "cleanup ?raw = a @ ?s @ b" "set a \<subseteq> set pre" by blast
  with assms(1) have "CHR ''{'' \<notin> set a" by blast
  from balancedCandidate_found[OF this, of kvs b] c(1)
  have bc: "balancedCandidate (cleanup ?raw) = Some ?s" by simp
  have p: "P ?s = Inr (JObject kvs)" using assms(2) by (simp add: JSON_stringify_def)
  have 1: "P ?raw = Inr v \<Longrightarrow> v = JObject kvs" for v
    using assms(3) by (simp add: JSON_stringify_def)
  have 2: "P (cleanup ?raw) = Inr v \<Longrightarrow> v = JObject kvs" for v
    using assms(4) by (simp add: JSON_stringify_def)
  have "safeParseJSON P ?raw = Inr (JObject kvs)"
    using 1 2 bc p
    by (auto simp: safeParseJSON_def Let_def simp del: stringify.simps split: sum.splits)
  then show ?thesis by (simp add: JSON_stringify_def)
qed


theorem balanced_extraction_witness:
  \<open>safeParseJSON JSON_parse (''Sure! '' @ JSON_stringify (JObject objBraces) @ '' ok?'')
     = Inr (JObject objBraces)\<close>
proof -
  have 1: "CHR ''{'' \<notin> set ''Sure! ''" by simp
  have 2: "JSON_parse (JSON_stringify (JObject objBraces)) = Inr (JObject objBraces)"
    by code_simp
  have "JSON_parse (''Sure! '' @ JSON_stringify (JObject objBraces) @ '' ok?'')
          = Inl (SyntaxError ''Unexpected token'')"
    by code_simp
  then have 3: "\<forall>v. JSON_parse (''Sure! '' @ JSON_stringify (JObject objBraces) @ '' ok?'') = Inr v
                  \<longrightarrow> v = JObject objBraces" by simp
  have "JSON_parse (cleanup (''Sure! '' @ JSON_stringify (JObject objBraces) @ '' ok?''))
          = Inl (SyntaxError ''Unexpected token'')"
    by code_simp
  then have 4: "\<forall>v. JSON_parse (cleanup (''Sure! '' @ JSON_stringify (JObject objBraces) @ '' ok?'')) = Inr v
                  \<longrightarrow> v = JObject objBraces" by simp
  from balanced_extraction[OF 1 2 3 4] show ?thesis .
qed
section \<open>Properties of the form payload parser\<close>

lemma showNat_1: "showNat (Suc 0) = ''1''"
proof -
  have "showNat 1 = ''1''" by code_simp
  then show ?thesis by simp
qed

lemma showNat_0: "showNat 0 = ''0''"
  by code_simp

text \<open>
  Claim C5, as stated, fails: of two fields keyed \<open>x\<close> the first keeps its key, since
  no key has been seen before it, and only the second is renamed.
\<close>

theorem duplicate_key_counterexample:
  "map ff_key (fp_fields (parseFields (payloadOf [fieldOf ''x'' ''text'' None None, fieldOf ''x'' ''text'' None None])))
     = [''x'', ''x_1'']
   \<and> [''x'', ''x_1''] \<noteq> [''x_0'', ''x_1'']"
  by (simp add: parseFields_def payloadOf_def fieldOf_def showNat_1)

text \<open>
  Claim C5, amended. When the fields list consists of two fields with the same key
  \<open>k\<close>, the parser yields the keys \<open>k\<close> and \<open>k_1\<close> (\<open>field_0\<close> and \<open>field_1\<close>
  when \<open>k\<close> is empty), which are distinct, and changes nothing else in the fields.
\<close>

theorem two_fields_same_key:
  assumes "fp_fields parsed = [f, g]" and "ff_key f = k" and "ff_key g = k"
  shows "map ff_key (fp_fields (parseFields parsed)) =
           [if k = [] then ''field_0'' else k, (if k = [] then ''field'' else k) @ ''_1'']
         \<and> distinct (map ff_key (fp_fields (parseFields parsed)))
         \<and> map (\<lambda>h. h\<lparr>ff_key := []\<rparr>) (fp_fields (parseFields parsed)) = map (\<lambda>h. h\<lparr>ff_key := []\<rparr>) [f, g]"
  using assms by (auto simp: parseFields_def showNat_1 showNat_0 Let_def)

theorem two_fields_same_key_witness:
  "map ff_key (fp_fields (parseFields (payloadOf [fieldOf ''x'' ''text'' None None, fieldOf ''x'' ''number'' None None])))
     = [''x'', ''x_1'']
   \<and> distinct (map ff_key (fp_fields (parseFields (payloadOf [fieldOf ''x'' ''text'' None None, fieldOf ''x'' ''number'' None None]))))"
  using two_fields_same_key[of "payloadOf [fieldOf ''x'' ''text'' None None, fieldOf ''x'' ''number'' None None]"
      "fieldOf ''x'' ''text'' None None" "fieldOf ''x'' ''number'' None None" "''x''"]
  by (simp add: payloadOf_def fieldOf_def)

text \<open>
  With more fields a synthesized key is not compared with the keys seen, and can repeat
  one of them.
\<close>

lemma later_duplicate_collides:
  "map ff_key (fp_fields (parseFields (payloadOf
      [fieldOf ''x'' ''text'' None None, fieldOf ''x_2'' ''text'' None None, fieldOf ''x'' ''text'' None None])))
   = [''x'', ''x_2'', ''x_2'']"
  by code_simp

lemma seedDefaults_present: "next k = Some v \<Longrightarrow> seedDefaults fs next k = Some v"
proof (induction fs arbitrary: "next")
  case Nil
  then show ?case by simp
next
  case (Cons g fs)
  have "(if next (ff_key g) = None then next(ff_key g \<mapsto> defaultValueFor g) else next) k = Some v"
    using Cons.prems by auto
  then show ?case by (simp add: Cons.IH del: fun_upd_apply)
qed

lemma seedDefaults_dom: "dom (seedDefaults fs next) = dom next \<union> set (map ff_key fs)"
  by (induction fs arbitrary: "next") auto

lemma seedDefaults_absent:
  "next k = None \<Longrightarrow> find (\<lambda>f. ff_key f = k) fs = Some f \<Longrightarrow>
     seedDefaults fs next k = Some (defaultValueFor f)"
proof (induction fs arbitrary: "next")
  case Nil
  then show ?case by simp
next
  case (Cons g fs)
  show ?case
  proof (cases "ff_key g = k")
    case True
    with Cons.prems show ?thesis by (simp add: seedDefaults_present)
  next
    case False
    with Cons.prems have "find (\<lambda>f. ff_key f = k) fs = Some f" by simp
    moreover have "(if next (ff_key g) = None then next(ff_key g \<mapsto> defaultValueFor g) else next) k = None"
      using False Cons.prems(1) by simp
    ultimately show ?thesis using Cons.IH by simp
  qed
qed

lemma seedDefaults_noop: "set (map ff_key fs) \<subseteq> dom next \<Longrightarrow> seedDefaults fs next = next"
  by (induction fs arbitrary: "next") auto

lemma seedDefaults_idem: "seedDefaults fs (seedDefaults fs next) = seedDefaults fs next"
  by (rule seedDefaults_noop) (simp add: seedDefaults_dom)

text \<open>
  Claim C8, as stated, fails: a checkbox field or a range slider that declares a
  \<open>defaultValue\<close> is seeded with it, not with the empty list or with \<open>min\<close>.
\<close>

theorem seeding_prefers_defaultValue_counterexample:
  "seedFormData (payloadOf [fieldOf ''tags'' ''checkboxes'' (Some (JArray [JString ''a''])) None,
                            fieldOf ''level'' ''range_slider'' (Some (JNumber 5)) (Some 1)]) Map.empty ''tags''
     = Some (JArray [JString ''a''])
   \<and> JArray [JString ''a''] \<noteq> JArray []
   \<and> seedFormData (payloadOf [fieldOf ''tags'' ''checkboxes'' (Some (JArray [JString ''a''])) None,
                            fieldOf ''level'' ''range_slider'' (Some (JNumber 5)) (Some 1)]) Map.empty ''level''
     = Some (JNumber 5)
   \<and> JNumber 5 \<noteq> JNumber 1"
  by (simp add: seedFormData_def payloadOf_def fieldOf_def defaultValueFor_def)

text \<open>
  Claim C8, amended. A key already present in the form state keeps its value. A key that
  is absent is seeded from the first field that has it: with the field's
  \<open>defaultValue\<close> when that is truthy, and otherwise with the empty list for
  \<open>checkboxes\<close>, with \<open>min\<close> (0 when absent) for \<open>range_slider\<close>, and with the empty
  string for every other type. Afterwards every field key is present, so seeding again
  changes nothing.
\<close>

theorem seeding_defaults:
  "(\<forall>k v. prev k = Some v \<longrightarrow> seedFormData parsed prev k = Some v)
   \<and> (\<forall>k f. prev k = None \<and> find (\<lambda>f. ff_key f = k) (fp_fields parsed) = Some f \<longrightarrow>
         seedFormData parsed prev k =
           Some (if truthy (ff_defaultValue f) then the (ff_defaultValue f)
                 else if ff_type f = ''checkboxes'' then JArray []
                 else if ff_type f = ''range_slider'' then
                   (case ff_min f of None \<Rightarrow> JNumber 0 | Some m \<Rightarrow> JNumber m)
                 else JString []))
   \<and> dom (seedFormData parsed prev) = dom prev \<union> set (map ff_key (fp_fields parsed))
   \<and> seedFormData parsed (seedFormData parsed prev) = seedFormData parsed prev"
proof -
  have dv: "defaultValueFor f =
           (if truthy (ff_defaultValue f) then the (ff_defaultValue f)
                 else if ff_type f = ''checkboxes'' then JArray []
                 else if ff_type f = ''range_slider'' then
                   (case ff_min f of None \<Rightarrow> JNumber 0 | Some m \<Rightarrow> JNumber m)
                 else JString [])" for f
    by (auto simp: defaultValueFor_def split: option.splits)
  show ?thesis
    using seedDefaults_present seedDefaults_absent seedDefaults_dom seedDefaults_idem
    by (simp add: seedFormData_def dv[symmetric])
qed

theorem seeding_defaults_witness:
  "seedFormData (payloadOf [fieldOf ''tags'' ''checkboxes'' None None,
                            fieldOf ''level'' ''range_slider'' None (Some 3),
                            fieldOf ''name'' ''text'' None None]) [''name'' \<mapsto> JString ''Ada''] ''level''
     = Some (JNumber 3)
   \<and> seedFormData (payloadOf [fieldOf ''tags'' ''checkboxes'' None None,
                            fieldOf ''level'' ''range_slider'' None (Some 3),
                            fieldOf ''name'' ''text'' None None]) [''name'' \<mapsto> JString ''Ada''] ''name''
     = Some (JString ''Ada'')"
proof -
  let ?p = "payloadOf [fieldOf ''tags'' ''checkboxes'' None None,
                            fieldOf ''level'' ''range_slider'' None (Some 3),
                            fieldOf ''name'' ''text'' None None]"
  let ?prev = "[''name'' \<mapsto> JString ''Ada'']"
  let ?f = "fieldOf ''level'' ''range_slider'' None (Some 3)"
  have 1: "?prev ''name'' = Some (JString ''Ada'')" by simp
  have 2: "?prev ''level'' = None \<and> find (\<lambda>f. ff_key f = ''level'') (fp_fields ?p) = Some ?f"
    by (simp add: payloadOf_def fieldOf_def)
  from seeding_defaults[of ?prev ?p] 1 have a: "seedFormData ?p ?prev ''name'' = Some (JString ''Ada'')"
    by blast
  from seeding_defaults[of ?prev ?p] 2 have "seedFormData ?p ?prev ''level'' =
           Some (if truthy (ff_defaultValue ?f) then the (ff_defaultValue ?f)
                 else if ff_type ?f = ''checkboxes'' then JArray []
                 else if ff_type ?f = ''range_slider'' then
                   (case ff_min ?f of None \<Rightarrow> JNumber 0 | Some m \<Rightarrow> JNumber m)
                 else JString [])" by blast
  then have b: "seedFormData ?p ?prev ''level'' = Some (JNumber 3)" by (simp add: fieldOf_def)
  from a b show ?thesis by simp
qed

section \<open>Properties of the provider fallback\<close>

lemma fallback_last_attempt:
  assumes "provider svc = Gemini" and "generateContent svc fallbackModel turn = Inl error"
    and "parsedMessageOf (jsonParse svc) error = JString msg"
  shows "generateChatResponse svc fallbackModel turn =
           (Inl (Error (if includesStr msg ''Region not supported''
                        then ''Region not supported. Try VPN.'' else msg)),
            [(fallbackModel, turn)])"
  using assms by (subst generateChatResponse.simps) (simp add: Let_def)

lemma fallback_success:
  assumes "provider svc = Gemini" and "generateContent svc modelName turn = Inr response"
  shows "generateChatResponse svc modelName turn = (Inr response, [(modelName, turn)])"
  using assms by (subst generateChatResponse.simps) simp

lemma fallback_retry:
  assumes "provider svc = Gemini" and "generateContent svc modelName turn = Inl error"
    and "parsedMessageOf (jsonParse svc) error = JString msg"
    and "includesStr msg thoughtSignature \<or> includesStr msg dependencyCode"
    and "modelName \<noteq> fallbackModel"
  shows "generateChatResponse svc modelName turn =
           (fst (generateChatResponse svc fallbackModel turn),
            (modelName, turn) # snd (generateChatResponse svc fallbackModel turn))"
  using assms by (subst generateChatResponse.simps) (auto simp: Let_def split: prod.splits)

lemma fallback_log:
  assumes "provider svc = Gemini"
  shows "snd (generateChatResponse svc fallbackModel turn) = [(fallbackModel, turn)]"
  using assms
  by (subst generateChatResponse.simps) (auto simp: Let_def split: sum.splits)

text \<open>
  Claim C6, as stated, fails on the OpenAI-compatible provider: that branch rethrows the
  error of the request and never retries. Here the request for a model other than the
  fallback model fails with a message that contains the thought-signature string: the
  error is the result of the call and no request is made to the fallback model, although
  it would have answered.
\<close>

theorem fallback_openai_counterexample:
  "generateChatResponse svcOpenAI ''gpt-4o'' emptyTurn = (Inl defectError, [])
   \<and> parsedMessageOf (jsonParse svcOpenAI) defectError = JString (message defectError)
   \<and> includesStr (message defectError) thoughtSignature
   \<and> ''gpt-4o'' \<noteq> fallbackModel
   \<and> generateContent svcOpenAI fallbackModel emptyTurn = Inr plainAnswer"
proof -
  have 1: "generateChatResponse svcOpenAI ''gpt-4o'' emptyTurn = (Inl defectError, [])"
    by (subst generateChatResponse.simps) (simp add: svcOpenAI_def)
  have 2: "parsedMessageOf (jsonParse svcOpenAI) defectError = JString (message defectError)"
    by (simp add: parsedMessageOf_def defectError_def startsWith_def)
  have 3: "includesStr (message defectError) thoughtSignature"
    by code_simp
  have 4: "''gpt-4o'' \<noteq> fallbackModel" by (simp add: fallbackModel_def)
  have 5: "generateContent svcOpenAI fallbackModel emptyTurn = Inr plainAnswer"
    by (simp add: svcOpenAI_def)
  from 1 2 3 4 5 show ?thesis by simp
qed

text \<open>
  Claim C6, amended. On the Gemini provider, when the request for a model other than the
  fallback model fails and the normalized message \<open>msg\<close> of the error contains the
  thought-signature string or the dependency failure code, exactly one more request is
  made, for the same turn (history, input, system instruction, config and attachments)
  on the fallback model. Its response, when it succeeds, is the result of the call. When
  it fails with a normalized message \<open>msg'\<close>, of whatever content, that error is the
  result (or the fixed region hint when \<open>msg'\<close> names the region) and no third request is
  made.
\<close>

theorem fallback_exactly_once:
  assumes "provider svc = Gemini" and "generateContent svc modelName turn = Inl error"
    and "parsedMessageOf (jsonParse svc) error = JString msg"
    and "includesStr msg thoughtSignature \<or> includesStr msg dependencyCode"
    and "modelName \<noteq> fallbackModel"
  shows "snd (generateChatResponse svc modelName turn) = [(modelName, turn), (fallbackModel, turn)]
       \<and> (\<forall>response. generateContent svc fallbackModel turn = Inr response \<longrightarrow>
             fst (generateChatResponse svc modelName turn) = Inr response)
       \<and> (\<forall>error' msg'. generateContent svc fallbackModel turn = Inl error'
                      \<and> parsedMessageOf (jsonParse svc) error' = JString msg' \<longrightarrow>
             fst (generateChatResponse svc modelName turn) =
               Inl (Error (if includesStr msg' ''Region not supported''
                           then ''Region not supported. Try VPN.'' else msg')))"
proof (intro conjI allI impI)
  note r = fallback_retry[OF assms]
  show "snd (generateChatResponse svc modelName turn) = [(modelName, turn), (fallbackModel, turn)]"
    using r fallback_log[OF assms(1), of turn] by simp
next
  fix response assume "generateContent svc fallbackModel turn = Inr response"
  from fallback_success[OF assms(1) this] fallback_retry[OF assms]
  show "fst (generateChatResponse svc modelName turn) = Inr response" by simp
next
  fix error' msg'
  assume "generateContent svc fallbackModel turn = Inl error' \<and>
          parsedMessageOf (jsonParse svc) error' = JString msg'"
  then have "generateChatResponse svc fallbackModel turn =
           (Inl (Error (if includesStr msg' ''Region not supported''
                        then ''Region not supported. Try VPN.'' else msg')),
            [(fallbackModel, turn)])"
    using fallback_last_attempt[OF assms(1)] by blast
  with fallback_retry[OF assms]
  show "fst (generateChatResponse svc modelName turn) =
               Inl (Error (if includesStr msg' ''Region not supported''
                           then ''Region not supported. Try VPN.'' else msg'))" by simp
qed


theorem fallback_exactly_once_witness:
  "generateChatResponse svcRecovers ''gemini-3-pro-preview'' emptyTurn =
     (Inr plainAnswer, [(''gemini-3-pro-preview'', emptyTurn), (fallbackModel, emptyTurn)])
   \<and> generateChatResponse svcBroken ''gemini-3-pro-preview'' emptyTurn =
     (Inl defectError, [(''gemini-3-pro-preview'', emptyTurn), (fallbackModel, emptyTurn)])"
proof -
  let ?msg = "''Function call is missing a thought signature in functionCall parts''"
  have inc: "includesStr ?msg thoughtSignature \<or> includesStr ?msg dependencyCode"
    by code_simp
  have noregion: "\<not> includesStr ?msg ''Region not supported''"
    by code_simp
  have ne: "''gemini-3-pro-preview'' \<noteq> fallbackModel" by (simp add: fallbackModel_def)
  have pm: "parsedMessageOf JSON_parse defectError = JString ?msg"
    by (simp add: parsedMessageOf_def defectError_def startsWith_def)
  have 1: "provider svcRecovers = Gemini" "provider svcBroken = Gemini"
    by (simp_all add: svcRecovers_def svcBroken_def)
  have 2: "generateContent svcRecovers ''gemini-3-pro-preview'' emptyTurn = Inl defectError"
    "generateContent svcBroken ''gemini-3-pro-preview'' emptyTurn = Inl defectError"
    using ne by (simp_all add: svcRecovers_def svcBroken_def)
  have 3: "parsedMessageOf (jsonParse svcRecovers) defectError = JString ?msg"
    "parsedMessageOf (jsonParse svcBroken) defectError = JString ?msg"
    using pm by (simp_all add: svcRecovers_def svcBroken_def)
  have ok: "generateContent svcRecovers fallbackModel emptyTurn = Inr plainAnswer"
    by (simp add: svcRecovers_def)
  have bad: "generateContent svcBroken fallbackModel emptyTurn = Inl defectError
             \<and> parsedMessageOf (jsonParse svcBroken) defectError = JString ?msg"
    using 3(2) by (simp add: svcBroken_def)
  note t1 = fallback_exactly_once[OF 1(1) 2(1) 3(1) inc ne]
  from t1 have a1: "snd (generateChatResponse svcRecovers ''gemini-3-pro-preview'' emptyTurn) =
      [(''gemini-3-pro-preview'', emptyTurn), (fallbackModel, emptyTurn)]" by (rule conjunct1)
  from t1 ok have a2: "fst (generateChatResponse svcRecovers ''gemini-3-pro-preview'' emptyTurn) = Inr plainAnswer"
    by blast
  from a1 a2 have a: "generateChatResponse svcRecovers ''gemini-3-pro-preview'' emptyTurn =
     (Inr plainAnswer, [(''gemini-3-pro-preview'', emptyTurn), (fallbackModel, emptyTurn)])"
    by (simp add: prod_eq_iff)
  note t2 = fallback_exactly_once[OF 1(2) 2(2) 3(2) inc ne]
  from t2 have b1: "snd (generateChatResponse svcBroken ''gemini-3-pro-preview'' emptyTurn) =
      [(''gemini-3-pro-preview'', emptyTurn), (fallbackModel, emptyTurn)]" by (rule conjunct1)
  from t2 bad have "fst (generateChatResponse svcBroken ''gemini-3-pro-preview'' emptyTurn) =
      Inl (Error (if includesStr ?msg ''Region not supported''
                           then ''Region not supported. Try VPN.'' else ?msg))"
    by blast
  with noregion have b2: "fst (generateChatResponse svcBroken ''gemini-3-pro-preview'' emptyTurn) = Inl defectError"
    by (simp add: defectError_def)
  from b1 b2 have b: "generateChatResponse svcBroken ''gemini-3-pro-preview'' emptyTurn =
     (Inl defectError, [(''gemini-3-pro-preview'', emptyTurn), (fallbackModel, emptyTurn)])"
    by (simp add: prod_eq_iff)
  from a b show ?thesis by simp
qed

section \<open>The reference parser reads back what \<open>JSON.stringify\<close> writes\<close>



lemma parseChars_escape:
  assumes "e \<noteq> CHR ''u''" "unescape e = Some d"
  shows "parseChars (backslash # e # t) = map_option (\<lambda>(s, r'). (d # s, r')) (parseChars t)"
  using assms by simp




























lemma length_intercalate_Cons2:
  "length (intercalate sep (x # y # ys)) = length x + length sep + length (intercalate sep (y # ys))"
  by simp












section \<open>Properties of the form submission\<close>









end
